theory Spec2Isabelle
  imports Main "HOL-Library.Word"
begin

unbundle bit_operations_syntax

section \<open>Bytes, big-endian integers and files\<close>

text \<open>
  Go's \<^verbatim>\<open>encoding/binary\<close> with \<^verbatim>\<open>binary.BigEndian\<close> writes a fixed-width integer
  most significant byte first. \<open>be_encode n v\<close> are the \<open>n\<close> bytes of \<open>v\<close>,
  \<open>be_decode\<close> reads them back. Signed integers travel as their two's complement
  bit pattern, that is as the \<open>unat\<close> of the word.
\<close>

type_synonym byte = "8 word"

fun be_encode :: "nat \<Rightarrow> nat \<Rightarrow> byte list" where
  "be_encode 0 v = []"
| "be_encode (Suc n) v = be_encode n (v div 256) @ [of_nat (v mod 256)]"

definition be_decode :: "byte list \<Rightarrow> nat" where
  "be_decode bs = foldl (\<lambda>acc b. acc * 256 + unat b) 0 bs"

text \<open>
  An open \<^verbatim>\<open>*os.File\<close>: the bytes on disk, the position of the handle, whether the
  handle was opened with \<^verbatim>\<open>O_APPEND\<close>, and whether the device fails every write
  (the only way a write to a regular file returns an error).
\<close>

record osfile =
  contents :: "byte list"
  fpos :: nat
  appendMode :: bool
  broken :: bool

definition openFile :: "byte list \<Rightarrow> bool \<Rightarrow> osfile" where
  "openFile bs app = \<lparr>contents = bs, fpos = 0, appendMode = app, broken = False\<rparr>"

text \<open>\<^verbatim>\<open>f.Seek(off, 0)\<close>: a negative offset is an error and leaves the handle alone.\<close>

definition seekStart :: "osfile \<Rightarrow> int \<Rightarrow> osfile option" where
  "seekStart f off = (if off < 0 then None else Some (f\<lparr>fpos := nat off\<rparr>))"

text \<open>\<^verbatim>\<open>f.Seek(0, 2)\<close>: the handle moves to the end, the result is the file's length.\<close>

definition seekEnd :: "osfile \<Rightarrow> nat \<times> osfile" where
  "seekEnd f = (length (contents f), f\<lparr>fpos := length (contents f)\<rparr>)"

text \<open>
  Overwriting \<open>bs\<close> at position \<open>p\<close> of the bytes \<open>cs\<close>; a position past the end
  leaves a hole of zero bytes, as a sparse file does.
\<close>

definition pwrite :: "byte list \<Rightarrow> nat \<Rightarrow> byte list \<Rightarrow> byte list" where
  "pwrite cs p bs =
     take p cs @ replicate (p - length cs) 0 @ bs @ drop (p + length bs) cs"

text \<open>
  \<^verbatim>\<open>f.Write(bs)\<close>. With \<^verbatim>\<open>O_APPEND\<close> the operating system moves the handle to the end
  of the file before every write, whatever \<^verbatim>\<open>Seek\<close> did before.
\<close>

definition fileWrite :: "osfile \<Rightarrow> byte list \<Rightarrow> osfile option" where
  "fileWrite f bs =
     (if broken f then None
      else if appendMode f
        then Some (f\<lparr>contents := contents f @ bs, fpos := length (contents f) + length bs\<rparr>)
        else Some (f\<lparr>contents := pwrite (contents f) (fpos f) bs, fpos := fpos f + length bs\<rparr>))"

text \<open>
  \<^verbatim>\<open>binary.Read\<close> of an \<open>n\<close>-byte integer is \<^verbatim>\<open>io.ReadFull\<close>: it fails
  (\<^verbatim>\<open>io.EOF\<close> or \<^verbatim>\<open>io.ErrUnexpectedEOF\<close>) unless \<open>n\<close> bytes are left.
\<close>

definition binaryRead :: "nat \<Rightarrow> osfile \<Rightarrow> (nat \<times> osfile) option" where
  "binaryRead n f =
     (if broken f \<or> length (contents f) < fpos f + n then None
      else Some (be_decode (take n (drop (fpos f) (contents f))), f\<lparr>fpos := fpos f + n\<rparr>))"

datatype error =
    ErrBlock0              \<comment> \<open>"Block 0 is not in blk files or utxo set"\<close>
  | ErrOpen                \<comment> \<open>\<^verbatim>\<open>os.OpenFile\<close> failed\<close>
  | ErrSeek                \<comment> \<open>\<^verbatim>\<open>Seek\<close> to a negative offset\<close>
  | ErrBinaryRead          \<comment> \<open>\<^verbatim>\<open>binary.Read\<close> met the end of the file\<close>
  | ErrEOF                 \<comment> \<open>\<^verbatim>\<open>Read\<close> at the end of the file\<close>
  | ErrShortRead nat       \<comment> \<open>"only read %d bytes from proof file"\<close>
  | ErrMagic               \<comment> \<open>"expect magic %x but read %x"\<close>
  | ErrTooBig              \<comment> \<open>"size at offest %d says %d which is too big"\<close>
  | ErrIo                  \<comment> \<open>a write failed; the worker prints it and returns\<close>
  | ErrTooManyDels         \<comment> \<open>"can't delete %d leaves, only %d exist"\<close>
  | ErrEmptyLeaf           \<comment> \<open>"Can't add empty (all 0s) leaf to accumulator"\<close>
  | ErrRemapSame           \<comment> \<open>"can't remap %d to %d... it's the same"\<close>
  | ErrRemapFar            \<comment> \<open>"changing by more than 1 not programmed yet"\<close>
  | ErrRowReduction        \<comment> \<open>"row reduction not implemented"\<close>
  | ErrNotRam              \<comment> \<open>"WriteForest only possible with ram forest"\<close>
  | Panic                  \<comment> \<open>a run-time panic: index out of range, \<^verbatim>\<open>panic(err)\<close>\<close>

section \<open>Reading a proof back: GetUDataBytesFromFile\<close>

text \<open>
  \<^verbatim>\<open>bridgenode/server.go\<close>, \<^verbatim>\<open>GetUDataBytesFromFile\<close>. The two files of the proof directory
  are what is on disk (\<open>None\<close>: the file cannot be opened). The function returns its
  result together with the trace of what it did to the outside: files opened, seeks,
  reads, and the one allocation \<^verbatim>\<open>make([]byte, size)\<close>.
\<close>

record proofDir =
  pOffsetFile :: "byte list option"
  pFile :: "byte list option"

datatype which = OffsetFile | ProofFile

datatype io_event =
    EvOpen which
  | EvSeek which int
  | EvRead which nat
  | EvAlloc nat
  | EvClose which

definition realMagic :: "byte list" where
  "realMagic = [0xaa, 0xff, 0xaa, 0xff]"

text \<open>
  From the seek in the offset file on. \<^verbatim>\<open>int64(8*height)\<close> multiplies in \<^verbatim>\<open>int32\<close>
  (it wraps) and then widens with the sign. \<^verbatim>\<open>proofFile.Read\<close> returns the bytes that
  are left, at most as many as the buffer holds, and \<^verbatim>\<open>io.EOF\<close> when none is left and
  the buffer is not empty.
\<close>

definition readProof :: "byte list \<Rightarrow> byte list \<Rightarrow> 32 word \<Rightarrow> io_event list \<times> (error + byte list)" where
  "readProof offs pf height =
    (let opened = [EvOpen OffsetFile, EvOpen ProofFile];
         at = sint (8 * height);
         ev1 = opened @ [EvSeek OffsetFile at]
     in if at < 0 then (ev1, Inl ErrSeek)
     else let ev2 = ev1 @ [EvRead OffsetFile 8]
     in if length offs < nat at + 8 then (ev2, Inl ErrBinaryRead)
     else let offset = (of_nat (be_decode (take 8 (drop (nat at) offs))) :: 64 word);
              ev3 = ev2 @ [EvSeek ProofFile (sint offset)]
     in if sint offset < 0 then (ev3, Inl ErrSeek)
     else let avail = drop (nat (sint offset)) pf;
              n = min 4 (length avail);
              readMagic = take 4 avail;
              ev4 = ev3 @ [EvRead ProofFile 4]
     in if n = 0 then (ev4, Inl ErrEOF)
     else if n \<noteq> 4 then (ev4, Inl (ErrShortRead n))
     else if readMagic \<noteq> realMagic then (ev4, Inl ErrMagic)
     else let ev5 = ev4 @ [EvRead ProofFile 4]
     in if length (drop 4 avail) < 4 then (ev5, Inl ErrBinaryRead)
     else let size = (of_nat (be_decode (take 4 (drop 4 avail))) :: 32 word)
     in if size > 2 ^ 24 then (ev5, Inl ErrTooBig)
     else let rest = drop 8 avail;
              got = take (unat size) rest;
              b = got @ replicate (unat size - length got) 0;
              ev6 = ev5 @ [EvAlloc (unat size), EvRead ProofFile (unat size)]
     in if 0 < unat size \<and> rest = [] then (ev6, Inl ErrEOF)
     else (ev6 @ [EvClose OffsetFile, EvClose ProofFile], Inr b))"

definition GetUDataBytesFromFile :: "proofDir \<Rightarrow> 32 word \<Rightarrow> io_event list \<times> (error + byte list)" where
  "GetUDataBytesFromFile d height =
    (if height = 0 then ([], Inl ErrBlock0)
     else case pOffsetFile d of
       None \<Rightarrow> ([EvOpen OffsetFile], Inl ErrOpen)
     | Some offs \<Rightarrow>
        (case pFile d of
           None \<Rightarrow> ([EvOpen OffsetFile, EvOpen ProofFile], Inl ErrOpen)
         | Some pf \<Rightarrow> readProof offs pf height))"

text \<open>
  What the layout of the two files says, independently of the reader: the offset
  recorded for a height is the 8-byte big-endian integer at byte \<open>8 * height\<close> of the
  offset file; a record at offset \<open>off\<close> of the proof file starts with 4 bytes of magic
  and goes on with the 4-byte big-endian length of the payload.
\<close>

definition bytesAt :: "byte list \<Rightarrow> nat \<Rightarrow> nat \<Rightarrow> byte list" where
  "bytesAt bs off n = take n (drop off bs)"

definition recordedOffset :: "byte list \<Rightarrow> nat \<Rightarrow> nat option" where
  "recordedOffset offs h =
     (if 8 * h + 8 \<le> length offs then Some (be_decode (bytesAt offs (8 * h) 8)) else None)"

definition recordedLength :: "byte list \<Rightarrow> nat \<Rightarrow> nat" where
  "recordedLength pf off = be_decode (bytesAt pf (off + 4) 4)"

text \<open>Example files: two offsets (0 and 3), and a proof file whose record at offset 3
  carries a wrong and a right magic.\<close>

definition exOffsets :: "byte list" where
  "exOffsets = [0,0,0,0,0,0,0,0, 0,0,0,0,0,0,0,3]"

definition exBadProofs :: "byte list" where
  "exBadProofs = [9,9,9, 0xaa,0xff,0xaa,0xfe, 0,0,0,2, 7,9]"

definition exGoodProofs :: "byte list" where
  "exGoodProofs = [9,9,9, 0xaa,0xff,0xaa,0xff, 0,0,0,2, 7,9]"

section \<open>The flat-file workers\<close>

text \<open>
  \<^verbatim>\<open>src/unnamed/part_000\<close>: \<^verbatim>\<open>flatFileBlockWorker\<close> appends proofs and offsets,
  \<^verbatim>\<open>flatFileTTLWorker\<close> writes TTL values into the proof file. A channel is the list of
  the values sent on it, oldest first. Both workers open their files with \<^verbatim>\<open>O_APPEND\<close>.
\<close>

text \<open>Go's integer division truncates towards zero.\<close>

definition quot :: "int \<Rightarrow> int \<Rightarrow> int" where
  "quot a b = sgn a * sgn b * (\<bar>a\<bar> div \<bar>b\<bar>)"

record blockWorker =
  proofFile :: osfile
  offsetFile :: osfile
  curOffset :: "64 word"
  proofWriteHeight :: "32 word"
  offsetChan :: "64 word list"
  fileWaitDone :: nat

text \<open>
  The start-up loop \<^verbatim>\<open>for offsetPos < offsetMax\<close>: it reads one offset after the other and
  sends each to the TTL worker. The source never assigns \<^verbatim>\<open>offsetPos\<close> in the loop, so
  the model passes it on unchanged; a failed \<^verbatim>\<open>binary.Read\<close> is \<^verbatim>\<open>panic(err)\<close>.
\<close>

function readOffsets ::
  "nat \<Rightarrow> nat \<Rightarrow> osfile \<Rightarrow> 64 word \<Rightarrow> 64 word list \<Rightarrow> error + (osfile \<times> 64 word \<times> 64 word list)" where
  "readOffsets offsetPos offsetMax f cur sent =
     (if offsetPos < offsetMax then
        (case binaryRead 8 f of
           None \<Rightarrow> Inl Panic
         | Some (v, f') \<Rightarrow> readOffsets offsetPos offsetMax f' (of_nat v) (sent @ [of_nat v]))
      else Inr (f, cur, sent))"
  by pat_completeness auto
termination
  by (relation "measure (\<lambda>(p, m, f, c, s). length (contents f) - fpos f)")
     (auto simp: binaryRead_def split: if_splits)

declare readOffsets.simps [simp del]

text \<open>
  The worker up to its main loop, from the bytes the two files hold on disk
  (\<^verbatim>\<open>O_CREATE\<close>: a missing file is an empty one).
\<close>

definition flatFileBlockWorker_init :: "byte list \<Rightarrow> byte list \<Rightarrow> error + blockWorker" where
  "flatFileBlockWorker_init pbytes obytes =
    (let pf = openFile pbytes True;
         (offsetMax, f1) = seekEnd (openFile obytes True)
     in if offsetMax mod 8 \<noteq> 0 then Inl Panic
        else if 0 < offsetMax then
          (case seekStart f1 0 of
             None \<Rightarrow> Inl Panic
           | Some f2 \<Rightarrow>
              (case readOffsets (fpos f2) offsetMax f2 0 [] of
                 Inl e \<Rightarrow> Inl e
               | Inr (f3, cur, sent) \<Rightarrow>
                   Inr \<lparr>proofFile = pf, offsetFile = f3, curOffset = cur,
                        proofWriteHeight = word_of_int (quot (sint cur) 8),
                        offsetChan = sent, fileWaitDone = 0\<rparr>))
        else Inr \<lparr>proofFile = pf, offsetFile = f1, curOffset = 0,
                  proofWriteHeight = word_of_int (quot (sint (0 :: 64 word)) 8),
                  offsetChan = [], fileWaitDone = 0\<rparr>)"

text \<open>
  One turn of the main loop, for the proof \<open>pbytes\<close> received from \<^verbatim>\<open>proofChan\<close>. The result
  of the \<^verbatim>\<open>Seek\<close> in the offset file is dropped by the source; a write that fails makes
  the worker print the error and return.
\<close>

definition blockWorker_step :: "blockWorker \<Rightarrow> byte list \<Rightarrow> error + blockWorker" where
  "blockWorker_step w pbytes =
    (let at = sint ((scast (proofWriteHeight w) :: 64 word) * 8);
         f1 = (case seekStart (offsetFile w) at of None \<Rightarrow> offsetFile w | Some f \<Rightarrow> f)
     in case fileWrite f1 (be_encode 8 (unat (curOffset w))) of
          None \<Rightarrow> Inl ErrIo
        | Some f2 \<Rightarrow>
          (case fileWrite (proofFile w) (be_encode 4 (unat (of_nat (length pbytes) :: 32 word))) of
             None \<Rightarrow> Inl ErrIo
           | Some p1 \<Rightarrow>
             (case fileWrite p1 pbytes of
                None \<Rightarrow> Inl ErrIo
              | Some p2 \<Rightarrow>
                 (let written = length pbytes;
                      cur = curOffset w + (of_nat written + 4)
                  in Inr (w\<lparr>proofFile := p2, offsetFile := f2, curOffset := cur,
                           proofWriteHeight := proofWriteHeight w + 1,
                           offsetChan := offsetChan w @ [cur],
                           fileWaitDone := fileWaitDone w + 1\<rparr>)))))"

text \<open>
  The types \<^verbatim>\<open>ttlResultBlock\<close> and \<^verbatim>\<open>txoStart\<close> are declared outside the files at hand.
  The worker compares \<^verbatim>\<open>Height\<close> with an \<^verbatim>\<open>int32\<close> and subtracts \<^verbatim>\<open>createHeight\<close> from it,
  which makes both \<^verbatim>\<open>int32\<close>; \<^verbatim>\<open>indexWithinBlock\<close> is taken as \<^verbatim>\<open>uint32\<close>.
\<close>

record txoStart =
  createHeight :: "32 word"
  indexWithinBlock :: "32 word"

record ttlResultBlock =
  Height :: "32 word"
  Created :: "txoStart list"

record ttlWorker =
  inRamOffsets :: "64 word list"
  maxOffsetHeight :: "32 word"
  ttlProofFile :: osfile
  ttlWaitDone :: nat

definition flatFileTTLWorker_init :: "byte list \<Rightarrow> ttlWorker" where
  "flatFileTTLWorker_init pbytes =
     \<lparr>inRamOffsets = [], maxOffsetHeight = 1, ttlProofFile = openFile pbytes True, ttlWaitDone = 0\<rparr>"

text \<open>The \<^verbatim>\<open>select\<close> case for an offset.\<close>

definition gotOffset :: "ttlWorker \<Rightarrow> 64 word \<Rightarrow> ttlWorker" where
  "gotOffset w nextOffset =
     w\<lparr>inRamOffsets := inRamOffsets w @ [nextOffset], maxOffsetHeight := maxOffsetHeight w + 1\<rparr>"

text \<open>
  \<^verbatim>\<open>for ttlRes.Height > maxOffsetHeight\<close>: offsets are taken from the channel \<open>q\<close> until the
  worker has caught up; on an empty channel the receive blocks (\<open>None\<close>).
\<close>

fun catchUp :: "32 word \<Rightarrow> ttlWorker \<Rightarrow> 64 word list \<Rightarrow> (ttlWorker \<times> 64 word list) option" where
  "catchUp h w q =
     (if maxOffsetHeight w <s h then
        (case q of [] \<Rightarrow> None | x # q' \<Rightarrow> catchUp h (gotOffset w x) q')
      else Some (w, q))"

text \<open>
  The body of \<^verbatim>\<open>for _, c := range ttlRes.Created\<close>. Indexing \<^verbatim>\<open>inRamOffsets\<close> out of range
  panics; the results of \<^verbatim>\<open>Seek\<close> and \<^verbatim>\<open>binary.Write\<close> are dropped by the source.
\<close>

definition writeTTL :: "32 word \<Rightarrow> ttlWorker \<Rightarrow> txoStart \<Rightarrow> error + ttlWorker" where
  "writeTTL h w c =
    (let i = sint (createHeight c)
     in if i < 0 \<or> int (length (inRamOffsets w)) \<le> i then Inl Panic
        else
          (let target = inRamOffsets w ! nat i + 4 + (ucast (indexWithinBlock c * 4) :: 64 word);
               f1 = (case seekStart (ttlProofFile w) (sint target) of
                       None \<Rightarrow> ttlProofFile w | Some f \<Rightarrow> f);
               f2 = (case fileWrite f1 (be_encode 4 (unat (h - createHeight c))) of
                       None \<Rightarrow> f1 | Some f \<Rightarrow> f)
           in Inr (w\<lparr>ttlProofFile := f2\<rparr>)))"

fun writeTTLs :: "32 word \<Rightarrow> ttlWorker \<Rightarrow> txoStart list \<Rightarrow> error + ttlWorker" where
  "writeTTLs h w [] = Inr w"
| "writeTTLs h w (c # cs) =
     (case writeTTL h w c of Inl e \<Rightarrow> Inl e | Inr w' \<Rightarrow> writeTTLs h w' cs)"

text \<open>The \<^verbatim>\<open>select\<close> case for a TTL result block, with the offsets \<open>q\<close> waiting in the channel.\<close>

definition gotTTLResult ::
  "ttlWorker \<Rightarrow> 64 word list \<Rightarrow> ttlResultBlock \<Rightarrow> (error + ttlWorker \<times> 64 word list) option" where
  "gotTTLResult w q ttlRes =
    (case catchUp (Height ttlRes) w q of
       None \<Rightarrow> None
     | Some (w1, q1) \<Rightarrow>
        Some (case writeTTLs (Height ttlRes) w1 (Created ttlRes) of
                Inl e \<Rightarrow> Inl e
              | Inr w2 \<Rightarrow> Inr (w2\<lparr>ttlWaitDone := ttlWaitDone w2 + 1\<rparr>, q1)))"

section \<open>The forest\<close>

text \<open>
  \<^verbatim>\<open>bridgenode/server.go\<close> from its second \<^verbatim>\<open>package\<close> clause on (the accumulator's forest) and
  \<^verbatim>\<open>accumulator/forestdata.go\<close>. A \<^verbatim>\<open>Hash\<close> is \<^verbatim>\<open>[32]byte\<close>, read here as one 256-bit word
  (first byte most significant); \<^verbatim>\<open>empty\<close> is the all-zero hash.
\<close>

type_synonym Hash = "256 word"

definition empty_hash :: Hash where
  "empty_hash = 0"

text \<open>
  Modelled from the spec: the type \<^verbatim>\<open>MiniHash\<close> and the method \<^verbatim>\<open>Mini\<close> are not among the
  files at hand. The spec calls a MiniHash "a short prefix of a Hash (implementation-defined
  \<open>\<ge>\<close> 8 bytes)"; the model takes the first 12 bytes. No theorem depends on the width.
\<close>

type_synonym MiniHash = "96 word"

definition Mini :: "Hash \<Rightarrow> MiniHash" where
  "Mini h = ucast (drop_bit 160 h)"

text \<open>
  Modelled from the spec: the type \<^verbatim>\<open>Leaf\<close> is not among the files at hand either; the
  spec has it as "a Hash plus a boolean remember flag", and the code reads \<^verbatim>\<open>add.Hash\<close>.
\<close>

record Leaf =
  Hash :: Hash
  Remember :: bool

text \<open>
  The \<^verbatim>\<open>Forest\<close> struct with the fields the operations below use (\<^verbatim>\<open>maxLeaf\<close> and the
  benchmark counters are left out). The backend \<^verbatim>\<open>data\<close> is the one in RAM,
  \<^verbatim>\<open>ramForestData\<close>: a slice of hashes.
\<close>

record Forest =
  numLeaves :: "64 word"
  rows :: "8 word"
  data :: "Hash list"
  positionMap :: "MiniHash \<rightharpoonup> 64 word"

text \<open>Sequencing of steps that may fail: the first error ends the run.\<close>

definition bindE :: "error + 'a \<Rightarrow> ('a \<Rightarrow> error + 'b) \<Rightarrow> error + 'b" where
  "bindE r k = (case r of Inl e \<Rightarrow> Inl e | Inr x \<Rightarrow> k x)"

lemma bindE_cong [fundef_cong]:
  "r = r' \<Longrightarrow> (\<And>x. r' = Inr x \<Longrightarrow> k x = k' x) \<Longrightarrow> bindE r k = bindE r' k'"
  by (auto simp: bindE_def split: sum.splits)

subsection \<open>ramForestData\<close>

text \<open>
  \<^verbatim>\<open>read\<close>, \<^verbatim>\<open>write\<close>, \<^verbatim>\<open>size\<close> and \<^verbatim>\<open>resize\<close> of \<^verbatim>\<open>ramForestData\<close>. Indexing the slice out of
  range panics ("If you read beyond the bounds that's on you and it'll crash"), and so does
  \<^verbatim>\<open>make\<close> with a length that does not fit \<^verbatim>\<open>int\<close>.
\<close>

definition ram_read :: "Hash list \<Rightarrow> 64 word \<Rightarrow> error + Hash" where
  "ram_read m pos = (if unat pos < length m then Inr (m ! unat pos) else Inl Panic)"

definition ram_write :: "Hash list \<Rightarrow> 64 word \<Rightarrow> Hash \<Rightarrow> error + Hash list" where
  "ram_write m pos h = (if unat pos < length m then Inr (m[unat pos := h]) else Inl Panic)"

definition ram_size :: "Hash list \<Rightarrow> 64 word" where
  "ram_size m = of_nat (length m)"

definition ram_resize :: "Hash list \<Rightarrow> 64 word \<Rightarrow> error + Hash list" where
  "ram_resize m newSize =
     (let n = newSize - ram_size m
      in if 2 ^ 63 \<le> n then Inl Panic else Inr (m @ replicate (unat n) 0))"

subsection \<open>Positions\<close>

text \<open>
  Modelled from the spec: \<^verbatim>\<open>parent\<close>, \<^verbatim>\<open>getRootsForwards\<close>, \<^verbatim>\<open>inForest\<close> and
  \<^verbatim>\<open>condenseDeletions\<close> are called by the forest but defined in a file that is not at hand.

  The spec numbers the nodes of the perfect tree of height \<open>rows\<close> row by row from the
  bottom left: "positions 0..2^rows-1 are leaf slots; the next 2^(rows-1) positions are the
  row-1 internals; the single highest position is the root". In that numbering the
  children \<open>2i\<close> and \<open>2i+1\<close> of a row have their parent at index \<open>i\<close> of the next row, which
  is the position \<open>(p >> 1) | (1 << rows)\<close>.
\<close>

definition parent :: "64 word \<Rightarrow> 8 word \<Rightarrow> 64 word" where
  "parent position forestRows = drop_bit 1 position OR push_bit (unat forestRows) 1"

text \<open>
  Modelled from the spec: "the bits of numLeaves select which roots exist". Bit \<open>h\<close> of
  the leaf count stands for a full tree of \<open>2 ^ h\<close> leaves whose leftmost leaf is the count
  with its bits up to \<open>h\<close> cleared; its root is \<open>h\<close> parents above that leaf. The result
  lists the roots from the tallest tree to the smallest: \<^verbatim>\<open>addv2\<close> takes the root of row
  \<open>h\<close> at index \<^verbatim>\<open>len - (h+1)\<close>, and \<^verbatim>\<open>reHash\<close> finds the root of the lowest row last.
\<close>

definition getRootsForwards :: "64 word \<Rightarrow> 8 word \<Rightarrow> 64 word list" where
  "getRootsForwards leaves forestRows =
     map (\<lambda>h. ((\<lambda>p. parent p forestRows) ^^ h) (push_bit (Suc h) (drop_bit (Suc h) leaves)))
       (filter (\<lambda>h. bit leaves h) (rev [0..<Suc (unat forestRows)]))"

text \<open>
  Modelled from the spec: "a position is in forest iff it lies within a live subtree
  rooted at one of the current roots": it is a position of the tree and one of its
  ancestors, or itself, is a root.
\<close>

definition inForest :: "64 word \<Rightarrow> 64 word \<Rightarrow> 8 word \<Rightarrow> bool" where
  "inForest pos leaves forestRows =
     (pos < push_bit (unat forestRows) 2 - 1 \<and>
      list_ex (\<lambda>k. ((\<lambda>p. parent p forestRows) ^^ k) pos \<in> set (getRootsForwards leaves forestRows))
        [0..<Suc (unat forestRows)])"

text \<open>
  Modelled from the spec: "Adjacent siblings collapse to their parent; the process iterates
  upward until no pair collapses"; the result is sorted. A pair can only collapse once per
  row, so \<open>rows + 1\<close> rounds reach the fixed point.
\<close>

fun collapseSiblings :: "64 word list \<Rightarrow> 8 word \<Rightarrow> 64 word list" where
  "collapseSiblings (a # b # xs) forestRows =
     (if a OR 1 = b \<and> a \<noteq> b then parent a forestRows # collapseSiblings xs forestRows
      else a # collapseSiblings (b # xs) forestRows)"
| "collapseSiblings xs forestRows = xs"

definition condenseDeletions :: "64 word list \<Rightarrow> 8 word \<Rightarrow> 64 word list" where
  "condenseDeletions dels forestRows =
     ((\<lambda>xs. sort (collapseSiblings xs forestRows)) ^^ Suc (unat forestRows)) dels"

subsection \<open>Deletion: removev5\<close>

definition promote :: "Forest \<Rightarrow> 64 word \<Rightarrow> error + Forest" where
  "promote f p =
     (let parentPos = parent p (rows f)
      in bindE (ram_read (data f) p) (\<lambda>h.
         bindE (ram_write (data f) parentPos h) (\<lambda>m. Inr (f\<lparr>data := m\<rparr>))))"

definition lonely :: "Forest \<Rightarrow> 64 word \<Rightarrow> error + bool" where
  "lonely f p =
     (let auntPos = parent p (rows f) XOR 1
      in if inForest auntPos (numLeaves f) (rows f) \<and> inForest (p XOR 1) (numLeaves f) (rows f)
         then bindE (ram_read (data f) auntPos) (\<lambda>a.
                if a = empty_hash then Inr True
                else bindE (ram_read (data f) (p XOR 1)) (\<lambda>s. Inr (s = empty_hash)))
         else Inr False)"

text \<open>
  The loop \<^verbatim>\<open>for f.lonely(p)\<close> of \<^verbatim>\<open>removev5\<close>, from the forest and the position it is entered
  with to the forest and the position it is left with. Nothing in the loop bounds the
  number of its turns, so a run that does not end is the value \<open>None\<close>.
\<close>

partial_function (option) climb :: "Forest \<Rightarrow> 64 word \<Rightarrow> (error + Forest \<times> 64 word) option" where
  "climb f p =
     (case lonely f p of
        Inl e \<Rightarrow> Some (Inl e)
      | Inr b \<Rightarrow>
         if b then
           (let p' = parent p (rows f)
            in case bindE (ram_read (data f) (p' XOR 1)) (\<lambda>s.
                      if s \<noteq> empty_hash then promote f (p' XOR 1) else promote f p') of
                 Inl e \<Rightarrow> Some (Inl e)
               | Inr f' \<Rightarrow> climb f' p')
         else Some (Inr (f, p)))"

declare climb.simps [code]

text \<open>The first loop of \<^verbatim>\<open>removev5\<close>: \<^verbatim>\<open>delete(f.positionMap, f.data.read(d).Mini())\<close>.\<close>

fun deleteFromMap :: "Forest \<Rightarrow> 64 word list \<Rightarrow> error + Forest" where
  "deleteFromMap f [] = Inr f"
| "deleteFromMap f (d # ds) =
     bindE (ram_read (data f) d) (\<lambda>h.
       deleteFromMap (f\<lparr>positionMap := (positionMap f)(Mini h := None)\<rparr>) ds)"

text \<open>\<^verbatim>\<open>dirtpos := parent(p, f.rows)\<close>, on the result of the loop.\<close>

definition dirtAbove :: "(error + Forest \<times> 64 word) option \<Rightarrow> (error + Forest \<times> 64 word) option" where
  "dirtAbove r =
     (case r of
        None \<Rightarrow> None
      | Some (Inl e) \<Rightarrow> Some (Inl e)
      | Some (Inr (f, p)) \<Rightarrow> Some (Inr (f, parent p (rows f))))"

text \<open>
  The body of the main loop for one condensed deletion \<open>p\<close>, up to \<^verbatim>\<open>dirtpos\<close>: promote the
  sibling, rise once if \<open>p\<close> is not lonely, run the loop, and take the parent of the position
  reached.
\<close>

definition removeOne :: "Forest \<Rightarrow> 64 word \<Rightarrow> (error + Forest \<times> 64 word) option" where
  "removeOne f p =
     (case promote f (p XOR 1) of
        Inl e \<Rightarrow> Some (Inl e)
      | Inr f1 \<Rightarrow>
         (case lonely f1 p of
            Inl e \<Rightarrow> Some (Inl e)
          | Inr b \<Rightarrow> dirtAbove (climb f1 (if \<not> b then parent p (rows f1) else p))))"

text \<open>
  The same body as the spec words it (4.3.1, steps 3a to 3d): "Promote sibling", then
  "Rise once: p \<leftarrow> parent(p, rows)", then "While p is lonely".
\<close>

definition removeOne_spec :: "Forest \<Rightarrow> 64 word \<Rightarrow> (error + Forest \<times> 64 word) option" where
  "removeOne_spec f p =
     (case promote f (p XOR 1) of
        Inl e \<Rightarrow> Some (Inl e)
      | Inr f1 \<Rightarrow> dirtAbove (climb f1 (parent p (rows f1))))"

fun removeLoop ::
  "Forest \<Rightarrow> 64 word list \<Rightarrow> 64 word list \<Rightarrow> (error + Forest \<times> 64 word list) option" where
  "removeLoop f dirt [] = Some (Inr (f, dirt))"
| "removeLoop f dirt (p # ps) =
     (case removeOne f p of
        None \<Rightarrow> None
      | Some (Inl e) \<Rightarrow> Some (Inl e)
      | Some (Inr (f', dirtpos)) \<Rightarrow>
          removeLoop f' (if dirt = [] \<or> last dirt \<noteq> dirtpos then dirt @ [dirtpos] else dirt) ps)"

definition removev5 :: "Forest \<Rightarrow> 64 word list \<Rightarrow> (error + Forest) option" where
  "removev5 f dels =
     (case deleteFromMap f dels of
        Inl e \<Rightarrow> Some (Inl e)
      | Inr f1 \<Rightarrow>
         (case removeLoop f1 [] (condenseDeletions dels (rows f1)) of
            None \<Rightarrow> None
          | Some (Inl e) \<Rightarrow> Some (Inl e)
          | Some (Inr (f2, dirt)) \<Rightarrow>
              Some (Inr (f2\<lparr>numLeaves := numLeaves f2 - of_nat (length dels)\<rparr>))))"

subsection \<open>Addition: Add and addv2\<close>

text \<open>
  \<^verbatim>\<open>parentHash\<close> is not among the files at hand (the spec: a cryptographic hash of the two
  hashes put together); the functions that call it take it as their first argument.

  The inner loop \<^verbatim>\<open>for h := uint8(0); (f.numLeaves>>h)&1 == 1; h++\<close>. A set bit of a 64-bit
  count has an index below 64, so \<open>h\<close> never wraps and is a natural number here.
\<close>

lemma drop_bit_and_1_less:
  fixes w :: "64 word"
  assumes "drop_bit h w AND 1 = 1"
  shows "h < 64"
proof (rule ccontr)
  assume "\<not> h < 64"
  then have "drop_bit h w = 0" by (simp add: drop_bit_word_beyond)
  with assms show False by simp
qed

function addRise ::
  "(Hash \<Rightarrow> Hash \<Rightarrow> Hash) \<Rightarrow> Hash list \<Rightarrow> 64 word list \<Rightarrow> 64 word \<Rightarrow> 8 word \<Rightarrow> nat \<Rightarrow> 64 word \<Rightarrow> Hash
     \<Rightarrow> error + Hash list" where
  "addRise parentHash m roots leaves forestRows h pos n =
     (if drop_bit h leaves AND 1 = 1 then
        (let rootPos = int (length roots) - int (h + 1)
         in if rootPos < 0 then Inl Panic
            else bindE (ram_read m (roots ! nat rootPos)) (\<lambda>root.
                   let n' = parentHash root n;
                       pos' = parent pos forestRows
                   in bindE (ram_write m pos' n') (\<lambda>m'.
                        addRise parentHash m' roots leaves forestRows (h + 1) pos' n')))
      else Inr m)"
  by pat_completeness auto
termination
  by (relation "measure (\<lambda>(H, m, roots, leaves, forestRows, h, pos, n). 64 - h)")
     (auto dest: drop_bit_and_1_less)

declare addRise.simps [simp del]

text \<open>The body of \<^verbatim>\<open>for _, add := range adds\<close>.\<close>

definition addOne :: "(Hash \<Rightarrow> Hash \<Rightarrow> Hash) \<Rightarrow> Forest \<Rightarrow> Leaf \<Rightarrow> error + Forest" where
  "addOne parentHash f add =
     (let f1 = f\<lparr>positionMap := (positionMap f)(Mini (Hash add) \<mapsto> numLeaves f)\<rparr>;
          roots = getRootsForwards (numLeaves f) (rows f);
          pos = numLeaves f;
          n = Hash add
      in bindE (ram_write (data f1) pos n) (\<lambda>m.
         bindE (addRise parentHash m roots (numLeaves f) (rows f) 0 pos n) (\<lambda>m'.
           Inr (f1\<lparr>data := m', numLeaves := numLeaves f + 1\<rparr>))))"

fun addv2 :: "(Hash \<Rightarrow> Hash \<Rightarrow> Hash) \<Rightarrow> Forest \<Rightarrow> Leaf list \<Rightarrow> error + Forest" where
  "addv2 parentHash f [] = Inr f"
| "addv2 parentHash f (add # adds) = bindE (addOne parentHash f add) (\<lambda>f'. addv2 parentHash f' adds)"

definition Add :: "(Hash \<Rightarrow> Hash \<Rightarrow> Hash) \<Rightarrow> Forest \<Rightarrow> Leaf list \<Rightarrow> error + Forest" where
  "Add parentHash f adds = addv2 parentHash f adds"

subsection \<open>Growing the forest: reMap\<close>

text \<open>
  The inner loop \<^verbatim>\<open>for x := uint64(0); x < runLength; x++\<close> over the values of \<open>x\<close>: the
  source position is read twice, for \<^verbatim>\<open>ok\<close> behind the size check and for \<^verbatim>\<open>src\<close> without it.
\<close>

fun moveRow :: "Hash list \<Rightarrow> 64 word \<Rightarrow> nat list \<Rightarrow> error + Hash list" where
  "moveRow m pos [] = Inr m"
| "moveRow m pos (x # xs) =
     (let srcPos = drop_bit 1 pos + of_nat x
      in bindE (ram_read m srcPos) (\<lambda>src.
           if srcPos < ram_size m \<and> src \<noteq> empty_hash
           then bindE (ram_write m (pos + of_nat x) src) (\<lambda>m'. moveRow m' pos xs)
           else moveRow m pos xs))"

text \<open>The outer loop \<^verbatim>\<open>for h := uint8(1); h < destRows; h++\<close> over the values of \<open>h\<close>.\<close>

fun moveRows :: "Hash list \<Rightarrow> 64 word \<Rightarrow> 64 word \<Rightarrow> nat list \<Rightarrow> error + Hash list" where
  "moveRows m pos reach [] = Inr m"
| "moveRows m pos reach (h # hs) =
     (let runLength = drop_bit 1 reach
      in bindE (moveRow m pos [0..<unat runLength]) (\<lambda>m'.
           moveRows m' (pos + reach) (drop_bit 1 reach) hs))"

text \<open>\<^verbatim>\<open>for x := uint64(1 << f.rows); x < 1<<destRows; x++\<close> over the values of \<open>x\<close>.\<close>

fun zeroOut :: "Hash list \<Rightarrow> nat list \<Rightarrow> error + Hash list" where
  "zeroOut m [] = Inr m"
| "zeroOut m (x # xs) = bindE (ram_write m (of_nat x) empty_hash) (\<lambda>m'. zeroOut m' xs)"

definition reMap :: "Forest \<Rightarrow> 8 word \<Rightarrow> error + Forest" where
  "reMap f destRows =
     (if destRows = rows f then Inl ErrRemapSame
      else if destRows > rows f + 1 \<or> (rows f > 0 \<and> destRows < rows f - 1) then Inl ErrRemapFar
      else if destRows < rows f then Inl ErrRowReduction
      else bindE (ram_resize (data f) (push_bit (unat destRows) 2 - 1)) (\<lambda>m1.
           let pos = (push_bit (unat destRows) 1 :: 64 word);
               reach = drop_bit 1 pos
           in bindE (moveRows m1 pos reach [1..<unat destRows]) (\<lambda>m2.
              bindE (zeroOut m2 [unat (push_bit (unat (rows f)) 1 :: 64 word)..<
                                 unat (push_bit (unat destRows) 1 :: 64 word)]) (\<lambda>m3.
                Inr (f\<lparr>data := m3, rows := destRows\<rparr>)))))"

subsection \<open>Modify\<close>

lemma reMap_rows:
  assumes "reMap f (rows f + 1) = Inr f'"
  shows "unat (rows f') = Suc (unat (rows f)) \<and> unat (rows f) < 255"
proof -
  have a: "\<not> rows f + 1 < rows f" and b: "rows f' = rows f + 1"
    using assms by (auto simp: reMap_def bindE_def Let_def split: if_splits sum.splits)
  have u: "unat (rows f + 1) = (unat (rows f) + 1) mod 256"
    by (simp add: unat_word_ariths)
  have v: "unat (rows f) < 256"
    using unsigned_less [of "rows f", where 'a = nat] by simp
  have w: "\<not> unat (rows f + 1) < unat (rows f)"
    using a by (simp add: word_less_nat_alt)
  have "unat (rows f) \<noteq> 255"
    using u w by auto
  with u v b show ?thesis by simp
qed

text \<open>
  \<^verbatim>\<open>for int64(f.numLeaves)+delta > int64(1<<f.rows)\<close>: both sides are \<^verbatim>\<open>int64\<close>, the sum wraps,
  and a shift by 64 or more gives 0. A turn that succeeds adds a row, and no row can be
  added to 255 rows, so the loop ends.
\<close>

function remapLoop :: "Forest \<Rightarrow> 64 word \<Rightarrow> error + Forest" where
  "remapLoop f delta =
     (if push_bit (unat (rows f)) 1 <s numLeaves f + delta
      then bindE (reMap f (rows f + 1)) (\<lambda>f'. remapLoop f' delta)
      else Inr f)"
  by pat_completeness auto
termination
  by (relation "measure (\<lambda>(f, delta). 256 - unat (rows f))")
     (auto dest: reMap_rows)

declare remapLoop.simps [simp del]

text \<open>
  Modelled from the spec: \<^verbatim>\<open>UndoBlock\<close> and \<^verbatim>\<open>BuildUndoData\<close> are not among the files at
  hand. The spec: "Build and retain undo data: for adds, simply the count; for dels, the
  hashes being removed together with their positions."
\<close>

record UndoBlock =
  numAdds :: "32 word"
  positions :: "64 word list"
  hashes :: "Hash list"

fun readAll :: "Hash list \<Rightarrow> 64 word list \<Rightarrow> error + Hash list" where
  "readAll m [] = Inr []"
| "readAll m (p # ps) = bindE (ram_read m p) (\<lambda>h. bindE (readAll m ps) (\<lambda>hs. Inr (h # hs)))"

definition BuildUndoData :: "Forest \<Rightarrow> 64 word \<Rightarrow> 64 word list \<Rightarrow> error + UndoBlock" where
  "BuildUndoData f numadds dels =
     bindE (readAll (data f) dels) (\<lambda>hs.
       Inr \<lparr>numAdds = ucast numadds, positions = dels, hashes = hs\<rparr>)"

text \<open>Modelled from the spec: \<^verbatim>\<open>sortUint64s\<close> is not at hand; the spec: "Sort dels ascending."\<close>

definition sortUint64s :: "64 word list \<Rightarrow> 64 word list" where
  "sortUint64s xs = sort xs"

text \<open>
  \<^verbatim>\<open>Modify\<close>. The lengths are \<^verbatim>\<open>int\<close>, 64 bits wide; \<^verbatim>\<open>delta\<close> and the sums with it are
  \<^verbatim>\<open>int64\<close>. The result is \<open>None\<close> when the deletion loop does not end, \<open>Some (Inl e)\<close> for
  a returned error or a panic, and \<open>Some (Inr (ub, f'))\<close> for the undo block and the forest
  after the call.
\<close>

definition Modify ::
  "(Hash \<Rightarrow> Hash \<Rightarrow> Hash) \<Rightarrow> Forest \<Rightarrow> Leaf list \<Rightarrow> 64 word list \<Rightarrow> (error + UndoBlock \<times> Forest) option" where
  "Modify parentHash f adds delsUn =
     (let numdels = length delsUn;
          numadds = length adds;
          delta = (of_nat numadds - of_nat numdels :: 64 word)
      in if numLeaves f + delta <s 0 then Some (Inl ErrTooManyDels)
         else
          (let dels = sortUint64s delsUn
           in if list_ex (\<lambda>a. Hash a = empty_hash) adds then Some (Inl ErrEmptyLeaf)
              else
               (case remapLoop f delta of
                  Inl e \<Rightarrow> Some (Inl e)
                | Inr f1 \<Rightarrow>
                   (case removev5 f1 dels of
                      None \<Rightarrow> None
                    | Some (Inl e) \<Rightarrow> Some (Inl e)
                    | Some (Inr f2) \<Rightarrow>
                       (case BuildUndoData f2 (of_nat numadds) dels of
                          Inl e \<Rightarrow> Some (Inl e)
                        | Inr ub \<Rightarrow>
                           (case addv2 parentHash f2 adds of
                              Inl e \<Rightarrow> Some (Inl e)
                            | Inr f3 \<Rightarrow> Some (Inr (ub, f3))))))))"

text \<open>\<^verbatim>\<open>NewForest\<close> for \<^verbatim>\<open>RamForest\<close>: no leaves, no rows, one slot.\<close>

definition NewForest :: Forest where
  "NewForest = \<lparr>numLeaves = 0, rows = 0, data = [0], positionMap = Map.empty\<rparr>"

definition getRoots :: "Forest \<Rightarrow> error + Hash list" where
  "getRoots f = readAll (data f) (getRootsForwards (numLeaves f) (rows f))"

text \<open>
  Example inputs. \<open>tH\<close> stands in for \<^verbatim>\<open>parentHash\<close> where a run is evaluated. \<open>exLonely\<close> is
  the forest after \<^verbatim>\<open>Modify\<close> has added the leaves 1, 2, 3 to the new forest and \<^verbatim>\<open>Add\<close> has
  added an empty leaf; \<open>exLonely1\<close> is that forest after position 3 was promoted.
\<close>

definition tH :: "Hash \<Rightarrow> Hash \<Rightarrow> Hash" where
  "tH l r = 10 * l + r"

definition exLonely :: Forest where
  "exLonely = \<lparr>numLeaves = 4, rows = 2, data = [1, 2, 3, 0, 12, 30, 150],
      positionMap = [Mini 1 \<mapsto> 0, Mini 2 \<mapsto> 1, Mini 3 \<mapsto> 2, Mini 0 \<mapsto> 3]\<rparr>"

definition exLonely1 :: Forest where
  "exLonely1 = exLonely\<lparr>data := [1, 2, 3, 0, 12, 0, 150]\<rparr>"

text \<open>
  The numbering of the spec in closed form: row \<open>h\<close> of the tree with \<open>r\<close> rows starts at
  \<open>rowStart r h\<close> and holds \<open>2 ^ (r - h)\<close> nodes; \<open>nodePos r h i\<close> is node \<open>i\<close> of row \<open>h\<close>.
\<close>

definition rowStart :: "nat \<Rightarrow> nat \<Rightarrow> nat" where
  "rowStart r h = 2 ^ Suc r - 2 ^ (Suc r - h)"

definition nodePos :: "nat \<Rightarrow> nat \<Rightarrow> nat \<Rightarrow> nat" where
  "nodePos r h i = rowStart r h + i"

definition exThree :: Forest where
  "exThree = \<lparr>numLeaves = 3, rows = 2, data = [1, 2, 3, 0, 12, 0, 0],
      positionMap = [Mini 1 \<mapsto> 0, Mini 2 \<mapsto> 1, Mini 3 \<mapsto> 2]\<rparr>"

subsection \<open>Persistence\<close>

text \<open>
  \<^verbatim>\<open>WriteForestToDisk\<close> and \<^verbatim>\<open>RestoreForest\<close> hand the slice \<^verbatim>\<open>ramForestData.m\<close> to
  \<^verbatim>\<open>Write\<close> and \<^verbatim>\<open>Read\<close> as bytes.

  Modelled from the spec: the byte view of the slice is not among the files at hand (the
  \<^verbatim>\<open>ramForestData\<close> at hand holds \<^verbatim>\<open>[]Hash\<close>); the spec: "dumps the backend's hash array
  verbatim". A hash is its 32 bytes, the array is the hashes in the order of their
  positions.
\<close>

definition hashBytes :: "Hash \<Rightarrow> byte list" where
  "hashBytes h = be_encode 32 (unat h)"

definition bytesHash :: "byte list \<Rightarrow> Hash" where
  "bytesHash bs = of_nat (be_decode bs)"

definition ramBytes :: "Hash list \<Rightarrow> byte list" where
  "ramBytes m = concat (map hashBytes m)"

definition bytesRam :: "byte list \<Rightarrow> Hash list" where
  "bytesRam bs = map (\<lambda>i. bytesHash (take 32 (drop (32 * i) bs))) [0..<length bs div 32]"

text \<open>
  \<^verbatim>\<open>f.Read(buf)\<close> on a regular file: as many bytes as the buffer holds and the file has left,
  at most 1 GiB in one call ("There's a (secret? at least not well documented) maxRW of
  1GB"); \<^verbatim>\<open>io.EOF\<close> when the buffer is not empty and nothing is left.
\<close>

definition maxRW :: nat where
  "maxRW = 2 ^ 30"

definition fileRead :: "osfile \<Rightarrow> nat \<Rightarrow> (byte list \<times> osfile) option" where
  "fileRead f want =
     (let n = min (min want maxRW) (length (contents f) - fpos f)
      in if broken f \<or> (n = 0 \<and> 0 < want) then None
         else Some (take n (drop (fpos f) (contents f)), f\<lparr>fpos := fpos f + n\<rparr>))"

lemma fileRead_progress:
  "fileRead f want = Some (bs, f') \<Longrightarrow> 0 < want \<Longrightarrow> 0 < length bs \<and> length bs \<le> want"
  by (auto simp: fileRead_def Let_def maxRW_def split: if_splits)

lemma fileRead_fewer_left:
  assumes "fileRead f (want - length got) = Some (bs, f')" and "length got < want"
  shows "want - (length got + length bs) < want - length got"
  using fileRead_progress [OF assms(1)] assms(2) by linarith

text \<open>\<^verbatim>\<open>for bytesRead < len(ramData.m)\<close>: the bytes read so far are \<open>got\<close>.\<close>

function readLoop :: "osfile \<Rightarrow> nat \<Rightarrow> byte list \<Rightarrow> error + byte list" where
  "readLoop f want got =
     (if length got < want then
        (case fileRead f (want - length got) of
           None \<Rightarrow> Inl ErrEOF
         | Some (bs, f') \<Rightarrow> readLoop f' want (got @ bs))
      else Inr got)"
  by pat_completeness auto
termination
  by (relation "measure (\<lambda>(f, want, got). want - length got)")
     (auto dest: fileRead_fewer_left)

declare readLoop.simps [simp del]

text \<open>
  \<^verbatim>\<open>for i := uint64(0); i < f.numLeaves; i++\<close> over the positions \<open>js\<close>: the entry of a
  \<^verbatim>\<open>MiniHash\<close> is overwritten by every later position that holds it.
\<close>

fun rebuildMap ::
  "Hash list \<Rightarrow> nat list \<Rightarrow> (MiniHash \<rightharpoonup> 64 word) \<Rightarrow> error + (MiniHash \<rightharpoonup> 64 word)" where
  "rebuildMap m [] pm = Inr pm"
| "rebuildMap m (i # js) pm =
     bindE (ram_read m (of_nat i)) (\<lambda>h. rebuildMap m js (pm(Mini h \<mapsto> of_nat i)))"

text \<open>
  \<^verbatim>\<open>RestoreForest\<close> with \<^verbatim>\<open>toRAM\<close> set and no copy-on-write path. The error of the second
  \<^verbatim>\<open>binary.Read\<close> is dropped (the check after it tests the error of the first), so a misc
  file of eight bytes restores zero rows.
\<close>

definition RestoreForest :: "osfile \<Rightarrow> osfile \<Rightarrow> error + Forest" where
  "RestoreForest miscForestFile forestFile =
     (case binaryRead 8 miscForestFile of
        None \<Rightarrow> Inl ErrBinaryRead
      | Some (n, misc1) \<Rightarrow>
          let leaves = (of_nat n :: 64 word);
              forestRows = (case binaryRead 1 misc1 of
                              None \<Rightarrow> 0
                            | Some (r, misc2) \<Rightarrow> (of_nat r :: 8 word))
          in bindE (ram_resize [] (push_bit (unat forestRows) 2 - 1)) (\<lambda>m0.
             bindE (readLoop forestFile (32 * length m0) []) (\<lambda>bs.
               let m = bytesRam bs
               in bindE (rebuildMap m [0..<unat leaves] Map.empty) (\<lambda>pm.
                    Inr \<lparr>numLeaves = leaves, rows = forestRows, data = m, positionMap = pm\<rparr>))))"

definition WriteMiscData :: "Forest \<Rightarrow> osfile \<Rightarrow> error + osfile" where
  "WriteMiscData f miscForestFile =
     (case fileWrite miscForestFile (be_encode 8 (unat (numLeaves f))) of
        None \<Rightarrow> Inl ErrIo
      | Some f1 \<Rightarrow>
          (case fileWrite f1 (be_encode 1 (unat (rows f))) of
             None \<Rightarrow> Inl ErrIo
           | Some f2 \<Rightarrow> Inr f2))"

text \<open>\<^verbatim>\<open>WriteForestToDisk\<close> of a forest on the RAM backend.\<close>

definition WriteForestToDisk :: "Forest \<Rightarrow> osfile \<Rightarrow> bool \<Rightarrow> error + osfile" where
  "WriteForestToDisk f dumpFile ram =
     (if ram then
        (case seekStart dumpFile 0 of
           None \<Rightarrow> Inl ErrSeek
         | Some d1 \<Rightarrow>
             (case fileWrite d1 (ramBytes (data f)) of
                None \<Rightarrow> Inl ErrIo
              | Some d2 \<Rightarrow> Inr d2))
      else Inr dumpFile)"

text \<open>
  The round trip: both files are written, closed, opened again and handed to
  \<^verbatim>\<open>RestoreForest\<close>.
\<close>

definition persistAndRestore :: "Forest \<Rightarrow> osfile \<Rightarrow> osfile \<Rightarrow> error + Forest" where
  "persistAndRestore f miscForestFile dumpFile =
     bindE (WriteMiscData f miscForestFile) (\<lambda>mf.
     bindE (WriteForestToDisk f dumpFile True) (\<lambda>df.
       RestoreForest (openFile (contents mf) False) (openFile (contents df) False)))"

text \<open>
  \<open>exTwo\<close> is the new forest after \<^verbatim>\<open>Modify\<close> has added two leaves, \<open>exDeleted\<close> is \<open>exTwo\<close>
  after \<^verbatim>\<open>Modify\<close> has deleted position 0.
\<close>

definition hashA :: Hash where
  "hashA = 1461501637330902918203684832716283019655932542976"

definition hashB :: Hash where
  "hashB = 2923003274661805836407369665432566039311865085952"

definition exTwo :: Forest where
  "exTwo = \<lparr>numLeaves = 2, rows = 1, data = [hashA, hashB, tH hashA hashB],
      positionMap = [Mini hashA \<mapsto> 0, Mini hashB \<mapsto> 1]\<rparr>"

definition exDeleted :: Forest where
  "exDeleted = \<lparr>numLeaves = 1, rows = 1, data = [hashA, hashB, hashB],
      positionMap = [Mini hashB \<mapsto> 1]\<rparr>"

text \<open>
  Example files for a height whose product \<^verbatim>\<open>8*height\<close> wraps: an offset file with the
  offsets of the heights 0 to \<open>2 ^ 29\<close>, all 0 but the last, which is 8; a proof file with
  an empty record at offset 0 and a record with a wrong magic at offset 8.
\<close>

definition exWrapOffsets :: "byte list" where
  "exWrapOffsets = replicate (2 ^ 32) 0 @ [0,0,0,0,0,0,0,8]"

definition exWrapProofs :: "byte list" where
  "exWrapProofs = [0xaa,0xff,0xaa,0xff, 0,0,0,0, 0xaa,0xff,0xaa,0xfe, 0,0,0,2, 7,9]"

text \<open>\<open>exLonely2\<close> is \<open>exLonely1\<close> after position 4 was promoted into the root.\<close>

definition exLonely2 :: Forest where
  "exLonely2 = exLonely\<lparr>data := [1, 2, 3, 0, 12, 0, 12]\<rparr>"

section \<open>Theorems\<close>

lemma be_decode_snoc: "be_decode (bs @ [b]) = be_decode bs * 256 + unat b"
  by (simp add: be_decode_def)

lemma length_be_encode: "length (be_encode n v) = n"
  by (induction n arbitrary: v) auto

lemma be_decode_encode: "be_decode (be_encode n v) = v mod 256 ^ n"
proof (induction n arbitrary: v)
  case 0
  show ?case by (simp add: be_decode_def)
next
  case (Suc n)
  have "unat (of_nat (v mod 256) :: byte) = v mod 256"
    by (simp add: unat_of_nat)
  then have "be_decode (be_encode (Suc n) v) = (v div 256) mod 256 ^ n * 256 + v mod 256"
    by (simp add: be_decode_snoc Suc.IH)
  also have "\<dots> = v mod 256 ^ Suc n"
    by (simp add: mod_mult2_eq mult.commute)
  finally show ?case .
qed

text \<open>
  Claim C10. For the height argument 0, \<^verbatim>\<open>GetUDataBytesFromFile\<close> returns its error at
  once: the trace of opens, seeks and reads is empty, whatever the proof directory
  holds.
\<close>

theorem C10_height_zero_fails_before_io:
  "GetUDataBytesFromFile d 0 = ([], Inl ErrBlock0)"
  by (simp add: GetUDataBytesFromFile_def)

lemma unat_byte_bound: "unat (b :: byte) < 256"
  using unsigned_less [of b, where 'a = nat] by simp

lemma be_decode_bound: "be_decode bs < 256 ^ length bs"
proof (induction bs rule: rev_induct)
  case Nil
  show ?case by (simp add: be_decode_def)
next
  case (snoc b bs)
  have "unat b < 256" by (rule unat_byte_bound)
  with snoc show ?case by (simp add: be_decode_snoc)
qed

lemma sint_cases:
  fixes w :: "'a::len word"
  shows "sint w = (if unat w < 2 ^ (LENGTH('a) - 1) then int (unat w)
                   else int (unat w) - 2 ^ LENGTH('a))"
proof -
  define h :: int where "h = 2 ^ (LENGTH('a) - 1)"
  define u :: int where "u = uint w"
  obtain n where n: "LENGTH('a) = Suc n"
    by (cases "LENGTH('a)") simp_all
  have L: "(2::int) ^ LENGTH('a) = 2 * h"
    by (simp add: h_def n)
  have u0: "0 \<le> u" and u1: "u < 2 * h"
    using uint_lt2p [of w] by (simp_all add: u_def L)
  have uu: "int (unat w) = u"
    by (simp add: u_def)
  have s: "sint w = (u + h) mod (2 * h) - h"
    by (simp add: sint_uint signed_take_bit_eq_take_bit_shift take_bit_eq_mod n h_def u_def)
  have c: "unat w < 2 ^ (LENGTH('a) - 1) \<longleftrightarrow> u < h"
  proof -
    have "(unat w < 2 ^ (LENGTH('a) - 1)) = (int (unat w) < int (2 ^ (LENGTH('a) - 1)))"
      by (simp only: of_nat_less_iff)
    also have "\<dots> = (u < h)"
      by (simp only: uu h_def of_nat_power of_nat_numeral)
    finally show ?thesis .
  qed
  show ?thesis
  proof (cases "u < h")
    case True
    then have "(u + h) mod (2 * h) = u + h"
      using u0 by (intro mod_pos_pos_trivial) simp_all
    with True c show ?thesis by (simp add: s u_def)
  next
    case False
    have "(u + h) mod (2 * h) = ((u - h) + 2 * h) mod (2 * h)"
      by (simp add: algebra_simps)
    also have "\<dots> = (u - h) mod (2 * h)"
      by (rule mod_add_self2)
    also have "\<dots> = u - h"
      using False u1 by (intro mod_pos_pos_trivial) simp_all
    finally have "(u + h) mod (2 * h) = u - h" .
    with False c show ?thesis by (simp add: s u_def L)
  qed
qed


lemma sint_8_height:
  fixes height :: "32 word"
  assumes "unat height < 2 ^ 28"
  shows "sint (8 * height) = int (8 * unat height)"
proof -
  have "unat (8 * height) = 8 * unat height"
    using assms by (simp add: unat_word_ariths)
  then show ?thesis
    using assms by (simp add: sint_cases)
qed

lemma unat_offset_word:
  assumes "length bs \<le> 8"
  shows "unat (of_nat (be_decode bs) :: 64 word) = be_decode bs"
proof -
  have "be_decode bs < 256 ^ length bs" by (rule be_decode_bound)
  also have "\<dots> \<le> (256::nat) ^ 8" using assms by (intro power_increasing) simp_all
  finally show ?thesis by (simp add: unat_of_nat)
qed

lemma unat_size_word:
  assumes "length bs \<le> 4"
  shows "unat (of_nat (be_decode bs) :: 32 word) = be_decode bs"
proof -
  have "be_decode bs < 256 ^ length bs" by (rule be_decode_bound)
  also have "\<dots> \<le> (256::nat) ^ 4" using assms by (intro power_increasing) simp_all
  finally show ?thesis by (simp add: unat_of_nat)
qed

lemma readProof_rejects:
  assumes h: "unat height < 2 ^ 28"
    and ro: "recordedOffset offs (unat height) = Some off"
    and bad: "bytesAt pf off 4 \<noteq> realMagic \<or> 2 ^ 24 < recordedLength pf off"
  shows "isl (snd (readProof offs pf height)) \<and> EvAlloc n \<notin> set (fst (readProof offs pf height))"
proof -
  define a where "a = 8 * unat height"
  have at: "sint (8 * height) = int a"
    unfolding a_def using h by (rule sint_8_height)
  have len: "a + 8 \<le> length offs" and off: "off = be_decode (take 8 (drop a offs))"
    using ro by (simp_all add: recordedOffset_def bytesAt_def a_def split: if_splits)
  define offset :: "64 word" where "offset = of_nat (be_decode (take 8 (drop a offs)))"
  have uo: "unat offset = off"
    unfolding offset_def off by (rule unat_offset_word) simp
  show ?thesis
  proof (cases "sint offset < 0")
    case True
    then show ?thesis
      using len by (simp add: readProof_def Let_def at offset_def [symmetric])
  next
    case False
    then have so: "nat (sint offset) = off"
      using uo unsigned_less [of offset, where 'a = nat]
      by (simp add: sint_cases split: if_splits)
    define sz :: "32 word" where "sz = of_nat (be_decode (take 4 (drop 4 (drop off pf))))"
    have usz: "unat sz = recordedLength pf off"
      unfolding sz_def recordedLength_def bytesAt_def
      by (simp add: unat_size_word add.commute)
    have big: "2 ^ 24 < recordedLength pf off \<Longrightarrow> 2 ^ 24 < sz"
      using usz by (simp add: word_less_nat_alt)
    have magic: "take 4 (drop off pf) = bytesAt pf off 4"
      by (simp add: bytesAt_def)
    have "readProof offs pf height =
       (let ev4 = [EvOpen OffsetFile, EvOpen ProofFile, EvSeek OffsetFile (int a),
                   EvRead OffsetFile 8, EvSeek ProofFile (sint offset), EvRead ProofFile 4];
            avail = drop off pf; n = min 4 (length avail)
        in if n = 0 then (ev4, Inl ErrEOF)
     else if n \<noteq> 4 then (ev4, Inl (ErrShortRead n))
     else if bytesAt pf off 4 \<noteq> realMagic then (ev4, Inl ErrMagic)
     else let ev5 = ev4 @ [EvRead ProofFile 4]
     in if length (drop 4 avail) < 4 then (ev5, Inl ErrBinaryRead)
     else if sz > 2 ^ 24 then (ev5, Inl ErrTooBig)
     else let rest = drop 8 avail;
              got = take (unat sz) rest;
              b = got @ replicate (unat sz - length got) 0;
              ev6 = ev5 @ [EvAlloc (unat sz), EvRead ProofFile (unat sz)]
     in if 0 < unat sz \<and> rest = [] then (ev6, Inl ErrEOF)
     else (ev6 @ [EvClose OffsetFile, EvClose ProofFile], Inr b))"
      unfolding readProof_def Let_def at nat_int offset_def [symmetric]
      using len False
      by (simp only: so magic sz_def [symmetric] if_False linorder_not_less [symmetric]
         append.simps of_nat_less_0_iff)
    then show ?thesis
      using bad big by (auto simp: Let_def)
  qed
qed


lemma GetUDataBytesFromFile_reads_record:
  "GetUDataBytesFromFile \<lparr>pOffsetFile = Some exOffsets, pFile = Some exGoodProofs\<rparr> 1 =
    ([EvOpen OffsetFile, EvOpen ProofFile, EvSeek OffsetFile 8, EvRead OffsetFile 8,
      EvSeek ProofFile 3, EvRead ProofFile 4, EvRead ProofFile 4, EvAlloc 2, EvRead ProofFile 2,
      EvClose OffsetFile, EvClose ProofFile], Inr [7, 9])"
  by (simp add: GetUDataBytesFromFile_def readProof_def exOffsets_def exGoodProofs_def
      be_decode_def realMagic_def Let_def)

lemma be_encode_4:
  "be_encode 4 v = [of_nat (v div 256 div 256 div 256 mod 256), of_nat (v div 256 div 256 mod 256),
     of_nat (v div 256 mod 256), of_nat (v mod 256)]"
proof -
  have "(4::nat) = Suc (Suc (Suc (Suc 0)))" by simp
  then show ?thesis by (simp only: be_encode.simps append.simps)
qed

lemma be_encode_8:
  "be_encode 8 v = be_encode 4 (v div 256 div 256 div 256 div 256) @ be_encode 4 v"
proof -
  have e: "(8::nat) = Suc (Suc (Suc (Suc (Suc (Suc (Suc (Suc 0)))))))" by simp
  have f: "(4::nat) = Suc (Suc (Suc (Suc 0)))" by simp
  show ?thesis
    unfolding e f by (simp only: be_encode.simps append.simps append_assoc)
qed

subsection \<open>The proof writer\<close>

lemma blockWorker_step_appends:
  assumes "\<not> broken (proofFile w)" and "\<not> broken (offsetFile w)"
    and "appendMode (proofFile w)"
  shows "\<exists>w'. blockWorker_step w pbytes = Inr w' \<and>
           contents (proofFile w') =
             contents (proofFile w) @ be_encode 4 (length pbytes mod 2 ^ 32) @ pbytes \<and>
           curOffset w' = curOffset w + of_nat (length pbytes) + 4"
  using assms
  by (auto simp: blockWorker_step_def fileWrite_def seekStart_def Let_def unat_of_nat
      split: option.splits)

text \<open>
  Claim C1, on the code: for the payload \<open>[1, 2, 3]\<close> the worker started on empty files
  appends the seven bytes \<open>00 00 00 03 01 02 03\<close> to the proof file, with no magic in
  front, and moves \<open>curOffset\<close> from 0 to 7.
\<close>

theorem C1_blockWorker_writes_no_magic:
  "map_sum id (\<lambda>w. (contents (proofFile w), curOffset w))
     (case flatFileBlockWorker_init [] [] of Inl e \<Rightarrow> Inl e | Inr w \<Rightarrow> blockWorker_step w [1, 2, 3])
   = Inr ([0, 0, 0, 3, 1, 2, 3], 7)"
  by (simp add: flatFileBlockWorker_init_def blockWorker_step_def openFile_def seekEnd_def
      seekStart_def fileWrite_def quot_def Let_def be_encode_4 be_encode_8)

lemma readOffsets_panics:
  "offsetPos < offsetMax \<Longrightarrow> readOffsets offsetPos offsetMax f cur sent = Inl Panic"
proof (induction offsetPos offsetMax f cur sent rule: readOffsets.induct)
  case (1 offsetPos offsetMax f cur sent)
  show ?case
  proof (cases "binaryRead 8 f")
    case None
    with "1.prems" show ?thesis by (subst readOffsets.simps) simp
  next
    case (Some r)
    obtain v f' where r: "r = (v, f')" by (cases r)
    have "readOffsets offsetPos offsetMax f' (of_nat v) (sent @ [of_nat v]) = Inl Panic"
      using "1.IH" [OF "1.prems" Some [unfolded r]] "1.prems" by simp
    with "1.prems" Some r show ?thesis by (subst readOffsets.simps) simp
  qed
qed

lemma flatFileBlockWorker_init_nonempty:
  "obytes \<noteq> [] \<Longrightarrow> flatFileBlockWorker_init pbytes obytes = Inl Panic"
  by (simp add: flatFileBlockWorker_init_def seekEnd_def seekStart_def openFile_def
      readOffsets_panics Let_def)

lemma flatFileBlockWorker_init_empty:
  "flatFileBlockWorker_init pbytes [] =
     Inr \<lparr>proofFile = openFile pbytes True, offsetFile = openFile [] True, curOffset = 0,
          proofWriteHeight = 0, offsetChan = [], fileWaitDone = 0\<rparr>"
  by (simp add: flatFileBlockWorker_init_def seekEnd_def openFile_def quot_def)

text \<open>
  Claim C7, on the code: started on an offset file that holds one offset (8 bytes), the
  worker reads the offset, sends it, reads again at the end of the file and panics, so no
  resume height is reached.
\<close>

theorem C7_startup_panics_on_recorded_offset:
  "flatFileBlockWorker_init [0, 0, 0, 3, 1, 2, 3] [0, 0, 0, 0, 0, 0, 0, 0] = Inl Panic"
  by (simp add: flatFileBlockWorker_init_nonempty)

subsection \<open>The TTL writer\<close>

lemma catchUp_example:
  "catchUp 2 (flatFileTTLWorker_init bs) [0] =
     Some (\<lparr>inRamOffsets = [0], maxOffsetHeight = 2, ttlProofFile = openFile bs True,
            ttlWaitDone = 0\<rparr>, [])"
  by (simp add: flatFileTTLWorker_init_def gotOffset_def word_sless_alt)

text \<open>
  Claim C2, on the code: the proof file holds 16 zero bytes, the offset of block 0 is 0,
  and the TTL result of block 2 names the output with index 1 of block 0. The claim puts
  \<open>00 00 00 02\<close> at bytes 12 to 15 and changes nothing else. The worker seeks to byte
  \<open>0 + 4 + 4 = 8\<close> and, its file being opened with \<^verbatim>\<open>O_APPEND\<close>, writes the four bytes at
  the end of the file.
\<close>

theorem C2_ttl_bytes_land_elsewhere:
  "map_option (map_sum id (\<lambda>(w, q). contents (ttlProofFile w)))
     (gotTTLResult (flatFileTTLWorker_init [0,0,0,0, 0,0,0,0, 0,0,0,0, 0,0,0,0]) [0]
        \<lparr>Height = 2, Created = [\<lparr>createHeight = 0, indexWithinBlock = 1\<rparr>]\<rparr>)
   = Some (Inr [0,0,0,0, 0,0,0,0, 0,0,0,0, 0,0,0,0, 0,0,0,2])"
  by (simp add: gotTTLResult_def catchUp_example writeTTL_def openFile_def seekStart_def
      fileWrite_def be_encode_4 Let_def del: catchUp.simps)

text \<open>
  Were the file opened without \<^verbatim>\<open>O_APPEND\<close>, the same entry would be written at bytes 8 to
  11, the position the worker seeks to: 4 bytes, not 8, after the recorded offset.
\<close>

lemma writeTTL_without_append:
  "map_sum id (\<lambda>w. contents (ttlProofFile w))
     (writeTTL 2 \<lparr>inRamOffsets = [0], maxOffsetHeight = 2,
                  ttlProofFile = openFile [0,0,0,0, 0,0,0,0, 0,0,0,0, 0,0,0,0] False,
                  ttlWaitDone = 0\<rparr>
        \<lparr>createHeight = 0, indexWithinBlock = 1\<rparr>)
   = Inr [0,0,0,0, 0,0,0,0, 0,0,0,2, 0,0,0,0]"
  by (simp add: writeTTL_def openFile_def seekStart_def fileWrite_def pwrite_def be_encode_4
      Let_def)

subsection \<open>Modify: the checks before any change\<close>

lemma sint_word_of_int_small:
  assumes "- (2 ^ 63) \<le> k" and "k < 2 ^ 63"
  shows "sint (word_of_int k :: 64 word) = k"
  using assms by (simp add: sint_sbintrunc' signed_take_bit_int_eq_self)

lemma too_many_dels_negative:
  fixes nl :: "64 word"
  assumes a: "a < 2 ^ 63" and d: "d < 2 ^ 63" and lt: "unat nl + a < d"
  shows "nl + (of_nat a - of_nat d) <s 0"
proof -
  define k :: int where "k = int (unat nl) + int a - int d"
  have w: "nl + (of_nat a - of_nat d) = word_of_int k"
    by (simp add: k_def)
  have "k < 0" unfolding k_def using lt by linarith
  moreover have "- (2 ^ 63) \<le> k"
  proof -
    have "int d < 2 ^ 63" using d by simp
    then show ?thesis unfolding k_def by linarith
  qed
  ultimately have "sint (word_of_int k :: 64 word) = k"
    by (intro sint_word_of_int_small) simp_all
  with \<open>k < 0\<close> show ?thesis
    by (simp add: w word_sless_alt)
qed

text \<open>
  Claim C5. \<^verbatim>\<open>Modify\<close> returns an error, and with it no undo block, whenever a leaf of
  \<open>adds\<close> has the empty hash or \<open>dels\<close> is longer than \<open>numLeaves + len(adds)\<close>. The two
  lengths are lengths of Go slices, below \<open>2 ^ 63\<close>.
\<close>

theorem C5_Modify_rejects:
  assumes "length adds < 2 ^ 63" and "length dels < 2 ^ 63"
    and "(\<exists>a \<in> set adds. Hash a = empty_hash) \<or> unat (numLeaves f) + length adds < length dels"
  shows "Modify parentHash f adds dels = Some (Inl ErrTooManyDels) \<or>
         Modify parentHash f adds dels = Some (Inl ErrEmptyLeaf)"
proof (cases "numLeaves f + (of_nat (length adds) - of_nat (length dels)) <s 0")
  case True
  then show ?thesis by (simp add: Modify_def Let_def)
next
  case False
  with assms(1,2) have "\<not> unat (numLeaves f) + length adds < length dels"
    using too_many_dels_negative by blast
  with assms(3) have "list_ex (\<lambda>a. Hash a = empty_hash) adds"
    by (simp add: list_ex_iff)
  with False show ?thesis by (simp add: Modify_def Let_def)
qed

theorem C5_Modify_rejects_witness:
  "length [\<lparr>Hash = empty_hash, Remember = False\<rparr>] < (2::nat) ^ 63 \<and>
   length ([] :: 64 word list) < (2::nat) ^ 63 \<and>
   (\<exists>a \<in> set [\<lparr>Hash = empty_hash, Remember = False\<rparr>]. Hash a = empty_hash) \<and>
   Modify tH NewForest [\<lparr>Hash = empty_hash, Remember = False\<rparr>] [] = Some (Inl ErrEmptyLeaf) \<and>
   unat (numLeaves NewForest) + length ([] :: Leaf list) < length [0 :: 64 word] \<and>
   Modify tH NewForest [] [0] = Some (Inl ErrTooManyDels)"
proof -
  have e: "Modify tH NewForest [\<lparr>Hash = empty_hash, Remember = False\<rparr>] [] \<noteq> Some (Inl ErrTooManyDels)"
    by (simp add: Modify_def NewForest_def Let_def word_sless_alt)
  have t: "Modify tH NewForest [] [0] \<noteq> Some (Inl ErrEmptyLeaf)"
    by (simp add: Modify_def NewForest_def Let_def word_sless_alt)
  show ?thesis
    using C5_Modify_rejects [of "[\<lparr>Hash = empty_hash, Remember = False\<rparr>]" "[]" NewForest tH]
      C5_Modify_rejects [of "[]" "[0]" NewForest tH] e t
    by (simp add: NewForest_def)
qed

subsection \<open>Deletion\<close>

lemma lonely_True_iff:
  "lonely f p = Inr True \<longleftrightarrow>
     inForest (parent p (rows f) XOR 1) (numLeaves f) (rows f) \<and>
     inForest (p XOR 1) (numLeaves f) (rows f) \<and>
     (ram_read (data f) (parent p (rows f) XOR 1) = Inr empty_hash \<or>
      ram_read (data f) (parent p (rows f) XOR 1) \<noteq> Inl Panic \<and>
      ram_read (data f) (p XOR 1) = Inr empty_hash)"
  by (auto simp: lonely_def Let_def bindE_def ram_read_def split: sum.splits if_splits)

lemma climb_lonely:
  "lonely f p = Inr True \<Longrightarrow>
   climb f p =
     (case bindE (ram_read (data f) (parent p (rows f) XOR 1)) (\<lambda>s.
             if s \<noteq> empty_hash then promote f (parent p (rows f) XOR 1)
             else promote f (parent p (rows f))) of
        Inl e \<Rightarrow> Some (Inl e)
      | Inr f' \<Rightarrow> climb f' (parent p (rows f)))"
  by (subst climb.simps) (simp add: Let_def)

lemma climb_not_lonely: "lonely f p = Inr False \<Longrightarrow> climb f p = Some (Inr (f, p))"
  by (subst climb.simps) simp

lemma exLonely_promote: "promote exLonely (2 XOR 1) = Inr exLonely1"
  by (simp add: promote_def exLonely_def exLonely1_def parent_def ram_read_def ram_write_def
      bindE_def Let_def)

lemma exLonely1_lonely: "lonely exLonely1 2 = Inr True"
  by code_simp

lemma exLonely_code: 
  "map_option (map_sum id (\<lambda>(f, d). (data f, d))) (removeOne exLonely 2) =
     Some (Inr ([1, 2, 3, 0, 12, 0, 12], 6))"
  by code_simp

lemma exLonely_spec: 
  "map_option (map_sum id (\<lambda>(f, d). (data f, d))) (removeOne_spec exLonely 2) =
     Some (Inr ([1, 2, 3, 0, 12, 0, 150], 6))"
  by code_simp

lemma exLonely_reachable:
  "map_option (map_sum id (\<lambda>(u, f). map_sum id (\<lambda>f'. (numLeaves f', rows f', data f'))
       (Add tH f [\<lparr>Hash = empty_hash, Remember = False\<rparr>])))
     (Modify tH NewForest [\<lparr>Hash = 1, Remember = False\<rparr>, \<lparr>Hash = 2, Remember = False\<rparr>,
        \<lparr>Hash = 3, Remember = False\<rparr>] [])
   = Some (Inr (Inr (4, 2, [1, 2, 3, 0, 12, 30, 150])))"
  by code_simp

text \<open>
  Claim C3 as stated fails. In a forest of four leaves whose last leaf is empty, deleting
  position 2 writes the empty sibling into position 5; position 2 is then lonely, the
  routine does not rise before the loop, and the first turn of the loop promotes position
  4 into the root 6. Rising once unconditionally, as the claim has it, leaves the root
  alone.
\<close>

theorem C3_unconditional_rise_counterexample:
  "condenseDeletions [2] (rows exLonely) = [2] \<and>
   map_option (map_sum id (\<lambda>(f, d). data f)) (removeOne exLonely 2)
     = Some (Inr [1, 2, 3, 0, 12, 0, 12]) \<and>
   map_option (map_sum id (\<lambda>(f, d). data f)) (removeOne_spec exLonely 2)
     = Some (Inr [1, 2, 3, 0, 12, 0, 150])"
  by code_simp

subsection \<open>Positions in closed form\<close>

lemma rowStart_add: "h \<le> Suc r \<Longrightarrow> rowStart r h + 2 ^ (Suc r - h) = 2 ^ Suc r"
proof -
  assume "h \<le> Suc r"
  have "(2::nat) ^ (Suc r - h) \<le> 2 ^ Suc r"
    by (rule power_increasing) simp_all
  then show ?thesis by (simp add: rowStart_def)
qed

lemma rowStart_0 [simp]: "rowStart r 0 = 0"
  by (simp add: rowStart_def)

lemma rowStart_Suc: "h \<le> r \<Longrightarrow> rowStart r (Suc h) = rowStart r h + 2 ^ (r - h)"
proof -
  assume h: "h \<le> r"
  have a: "rowStart r h + 2 ^ (Suc r - h) = 2 ^ Suc r"
    using h by (intro rowStart_add) simp
  have b: "rowStart r (Suc h) + 2 ^ (Suc r - Suc h) = 2 ^ Suc r"
    using h by (intro rowStart_add) simp
  have c: "(2::nat) ^ (Suc r - h) = 2 * 2 ^ (r - h)"
    using h by (simp add: Suc_diff_le)
  from a b c show ?thesis by simp
qed

lemma rowStart_top: "rowStart r (Suc r) = 2 ^ Suc r - 1"
  by (simp add: rowStart_def)

lemma rowStart_mono: "h \<le> h' \<Longrightarrow> h' \<le> Suc r \<Longrightarrow> rowStart r h \<le> rowStart r h'"
proof (induction h' rule: nat_induct_at_least)
  case base
  show ?case by simp
next
  case (Suc n)
  then have "rowStart r (Suc n) = rowStart r n + 2 ^ (r - n)"
    by (intro rowStart_Suc) simp
  with Suc show ?case by simp
qed

lemma nodePos_less_next:
  "h \<le> r \<Longrightarrow> i < 2 ^ (r - h) \<Longrightarrow> nodePos r h i < rowStart r (Suc h)"
  by (simp add: nodePos_def rowStart_Suc)

lemma nodePos_less_size:
  assumes "h \<le> r" and "i < 2 ^ (r - h)"
  shows "nodePos r h i < 2 ^ Suc r - 1"
proof -
  have "nodePos r h i < rowStart r (Suc h)"
    using assms by (rule nodePos_less_next)
  also have "\<dots> \<le> rowStart r (Suc r)"
    using assms(1) by (intro rowStart_mono) simp_all
  finally show ?thesis by (simp add: rowStart_top)
qed

lemma nodePos_row_unique:
  assumes "h \<le> r" "h' \<le> r" "i < 2 ^ (r - h)" "i' < 2 ^ (r - h')"
    and eq: "nodePos r h i = nodePos r h' i'"
  shows "h = h' \<and> i = i'"
proof -
  have ne: "\<not> a < b" if "a \<le> r" "b \<le> r" "j < 2 ^ (r - a)" "nodePos r a j = nodePos r b j'"
    for a b j j'
  proof
    assume "a < b"
    have "nodePos r a j < rowStart r (Suc a)"
      using that(1,3) by (rule nodePos_less_next)
    also have "\<dots> \<le> rowStart r b"
      using \<open>a < b\<close> that(2) by (intro rowStart_mono) simp_all
    also have "\<dots> \<le> nodePos r b j'"
      by (simp add: nodePos_def)
    finally show False using that(4) by simp
  qed
  have "\<not> h < h'" using ne [OF assms(1,2,3) eq] .
  moreover have "\<not> h' < h" using ne [OF assms(2,1,4) eq [symmetric]] .
  ultimately have "h = h'" by simp
  with eq show ?thesis by (simp add: nodePos_def)
qed

lemma nodePos_exists:
  assumes "p < 2 ^ Suc r - 1"
  shows "\<exists>h i. h \<le> r \<and> i < 2 ^ (r - h) \<and> p = nodePos r h i"
proof -
  have "p < rowStart r (Suc k) \<Longrightarrow> k \<le> r \<Longrightarrow>
          \<exists>h i. h \<le> r \<and> i < 2 ^ (r - h) \<and> p = nodePos r h i" for k
  proof (induction k)
    case 0
    then have "p < 2 ^ r" by (simp add: rowStart_Suc)
    then show ?case by (intro exI [of _ 0] exI [of _ p]) (simp add: nodePos_def)
  next
    case (Suc k)
    show ?case
    proof (cases "p < rowStart r (Suc k)")
      case True
      with Suc show ?thesis by simp
    next
      case False
      have "rowStart r (Suc (Suc k)) = rowStart r (Suc k) + 2 ^ (r - Suc k)"
        using Suc.prems(2) by (intro rowStart_Suc)
      with False Suc.prems(1) have "p - rowStart r (Suc k) < 2 ^ (r - Suc k)"
        by simp
      moreover have "p = nodePos r (Suc k) (p - rowStart r (Suc k))"
        using False by (simp add: nodePos_def)
      ultimately show ?thesis using Suc.prems(2) by blast
    qed
  qed
  from this [of r] assms show ?thesis by (simp add: rowStart_top)
qed

lemma rowStart_half:
  assumes "h \<le> r"
  shows "rowStart r h mod 2 = 0 \<and> rowStart r h div 2 + 2 ^ r = rowStart r (Suc h)"
proof -
  define a :: nat where "a = 2 ^ (r - h)"
  define b :: nat where "b = 2 ^ r"
  have ab: "a \<le> b"
    unfolding a_def b_def by (rule power_increasing) simp_all
  have "rowStart r h + 2 * a = 2 * b"
    using rowStart_add [of h r] assms by (simp add: a_def b_def Suc_diff_le)
  then have x: "rowStart r h = 2 * (b - a)"
    using ab by linarith
  have "rowStart r (Suc h) + a = 2 * b"
    using rowStart_add [of "Suc h" r] assms by (simp add: a_def b_def)
  then have y: "rowStart r (Suc h) = (b - a) + b"
    using ab by linarith
  show ?thesis
    unfolding x y b_def [symmetric] by simp
qed

lemma nodePos_parent:
  assumes "h \<le> r"
  shows "nodePos r h i div 2 + 2 ^ r = nodePos r (Suc h) (i div 2)"
proof -
  from rowStart_half [OF assms]
  have e: "rowStart r h mod 2 = 0" and s: "rowStart r h div 2 + 2 ^ r = rowStart r (Suc h)"
    by simp_all
  obtain c where c: "rowStart r h = 2 * c"
    using e by (metis mod_0_imp_dvd dvdE)
  have "(rowStart r h + i) div 2 = rowStart r h div 2 + i div 2"
    unfolding c by simp
  with s show ?thesis by (simp add: nodePos_def)
qed

subsection \<open>The word operations on positions\<close>

lemma nat_or_exp:
  fixes x :: nat
  assumes "x < 2 ^ r"
  shows "x OR 2 ^ r = x + 2 ^ r"
proof -
  have "\<not> bit x n \<or> \<not> bit ((2::nat) ^ r) n" for n
  proof (cases "n = r")
    case True
    have "x div 2 ^ r = 0" using assms by simp
    then have "\<not> bit x r" by (simp add: bit_iff_odd)
    with True show ?thesis by simp
  next
    case False
    then show ?thesis by (simp add: bit_exp_iff)
  qed
  then have "x + 2 ^ r = x OR 2 ^ r" by (rule disjunctive_add)
  then show ?thesis by simp
qed

lemma unat_push_bit_1:
  assumes "r < 64"
  shows "unat (push_bit r 1 :: 64 word) = 2 ^ r"
proof -
  have "(2::nat) ^ r < 2 ^ 64" using assms by (intro power_strict_increasing) simp_all
  then have t: "take_bit 64 ((2::nat) ^ r) = 2 ^ r"
    by (rule take_bit_nat_eq_self)
  have "unat (push_bit r 1 :: 64 word) = take_bit LENGTH(64) (push_bit r (unat (1 :: 64 word)))"
    by (simp only: unsigned_push_bit_eq)
  also have "\<dots> = take_bit 64 ((2::nat) ^ r)"
    by simp
  finally show ?thesis
    by (simp only: t)
qed

lemma unat_parent:
  assumes "unat forestRows \<le> 62" and "unat p < 2 ^ Suc (unat forestRows)"
  shows "unat (parent p forestRows) = unat p div 2 + 2 ^ unat forestRows"
proof -
  have d: "unat (drop_bit 1 p) = unat p div 2"
    by (simp add: drop_bit_eq_div unat_div)
  have e: "unat (push_bit (unat forestRows) 1 :: 64 word) = 2 ^ unat forestRows"
    using assms(1) by (intro unat_push_bit_1) simp
  have "unat p div 2 < 2 ^ unat forestRows"
    using assms(2) by simp
  then have "unat p div 2 OR 2 ^ unat forestRows = unat p div 2 + 2 ^ unat forestRows"
    by (rule nat_or_exp)
  then show ?thesis
    by (simp only: parent_def unsigned_or_eq d e)
qed

lemma unat_parent_nodePos:
  assumes r: "unat forestRows \<le> 62" and h: "h \<le> unat forestRows"
    and p: "unat p = nodePos (unat forestRows) h i" and i: "i < 2 ^ (unat forestRows - h)"
  shows "unat (parent p forestRows) = nodePos (unat forestRows) (Suc h) (i div 2)"
proof -
  have "unat p < 2 ^ Suc (unat forestRows) - 1"
    unfolding p using h i by (rule nodePos_less_size)
  then have "unat p < 2 ^ Suc (unat forestRows)" by simp
  with r have "unat (parent p forestRows) = unat p div 2 + 2 ^ unat forestRows"
    by (rule unat_parent)
  then show ?thesis
    unfolding p using h by (simp add: nodePos_parent)
qed

lemma bit_nat_imp_le:
  fixes n :: nat
  assumes "bit n h"
  shows "2 ^ h \<le> n"
proof (rule ccontr)
  assume "\<not> 2 ^ h \<le> n"
  then have "n div 2 ^ h = 0" by simp
  with assms show False by (simp add: bit_iff_odd)
qed

lemma bit_word_imp_le:
  fixes w :: "64 word"
  assumes "bit w h"
  shows "2 ^ h \<le> unat w"
proof -
  have "bit (unat w) h" using assms by (simp add: bit_unsigned_iff)
  then show ?thesis by (rule bit_nat_imp_le)
qed

lemma bit_word_mod:
  fixes w :: "64 word"
  assumes "bit w h"
  shows "2 ^ h \<le> unat w mod 2 ^ Suc h"
proof -
  have b: "bit (unat w) h" using assms by (simp add: bit_unsigned_iff)
  have "bit (take_bit (Suc h) (unat w)) h"
    using b by (simp add: bit_take_bit_iff)
  then have "2 ^ h \<le> take_bit (Suc h) (unat w)" by (rule bit_nat_imp_le)
  then show ?thesis by (simp add: take_bit_eq_mod)
qed

lemma funpow_parent_nodePos:
  assumes r: "unat forestRows \<le> 62"
  shows "h + k \<le> unat forestRows \<Longrightarrow> unat p = nodePos (unat forestRows) h i \<Longrightarrow>
         i < 2 ^ (unat forestRows - h) \<Longrightarrow>
         unat (((\<lambda>p. parent p forestRows) ^^ k) p) = nodePos (unat forestRows) (h + k) (i div 2 ^ k)"
proof (induction k)
  case 0
  then show ?case by simp
next
  case (Suc k)
  let ?q = "((\<lambda>p. parent p forestRows) ^^ k) p"
  have q: "unat ?q = nodePos (unat forestRows) (h + k) (i div 2 ^ k)"
    using Suc by simp
  have "i div 2 ^ k < 2 ^ (unat forestRows - (h + k))"
  proof -
    have "(2::nat) ^ (unat forestRows - h) = 2 ^ (unat forestRows - (h + k)) * 2 ^ k"
      using Suc.prems(1) by (simp flip: power_add)
    with Suc.prems(3) show ?thesis
      by (simp add: less_mult_imp_div_less)
  qed
  then have "unat (parent ?q forestRows) = nodePos (unat forestRows) (Suc (h + k)) (i div 2 ^ k div 2)"
    using r Suc.prems(1) q by (intro unat_parent_nodePos) simp_all
  moreover have "i div 2 ^ k div 2 = i div 2 ^ Suc k"
    by (simp only: power_Suc2 div_mult2_eq)
  ultimately show ?case
    by (simp only: funpow.simps o_apply add_Suc_right)
qed

lemma unat_tree_start:
  fixes leaves :: "64 word"
  shows "unat (push_bit (Suc k) (drop_bit (Suc k) leaves)) = unat leaves div 2 ^ Suc k * 2 ^ Suc k"
proof -
  have t: "unat (take_bit (Suc k) leaves) = unat leaves mod 2 ^ Suc k"
    unfolding unsigned_take_bit_eq by (rule take_bit_eq_mod)
  have "push_bit (Suc k) (drop_bit (Suc k) leaves) = leaves - take_bit (Suc k) leaves"
    by (metis add_diff_cancel_right' bits_ident)
  moreover have "take_bit (Suc k) leaves \<le> leaves"
    unfolding word_le_nat_alt t by (rule mod_less_eq_dividend)
  ultimately have "unat (push_bit (Suc k) (drop_bit (Suc k) leaves))
      = unat leaves - unat (take_bit (Suc k) leaves)"
    by (simp only: unat_sub)
  also have "\<dots> = unat leaves div 2 ^ Suc k * 2 ^ Suc k"
    unfolding t by (simp only: minus_mod_eq_div_mult)
  finally show ?thesis .
qed

lemma live_index_bound:
  assumes "k \<le> r" and "(i + 1) * 2 ^ k \<le> n" and "n \<le> (2::nat) ^ r"
  shows "i < 2 ^ (r - k)"
proof -
  have "(2::nat) ^ r = 2 ^ (r - k) * 2 ^ k"
    using assms(1) by (simp flip: power_add)
  with assms(2,3) have "(i + 1) * 2 ^ k \<le> 2 ^ (r - k) * 2 ^ k" by simp
  then have "i + 1 \<le> 2 ^ (r - k)"
    using mult_le_cancel2 [of "i + 1" "2 ^ k" "2 ^ (r - k)"] by simp
  then show ?thesis by simp
qed

lemma roots_nodePos:
  assumes r: "unat forestRows \<le> 62" and n: "unat leaves \<le> 2 ^ unat forestRows"
    and x: "x \<in> set (getRootsForwards leaves forestRows)"
  shows "\<exists>k i. k \<le> unat forestRows \<and> (i + 1) * 2 ^ k \<le> unat leaves \<and>
           unat x = nodePos (unat forestRows) k i"
proof -
  from x have "x \<in> (\<lambda>h. ((\<lambda>p. parent p forestRows) ^^ h) (push_bit (Suc h) (drop_bit (Suc h) leaves)))
      ` {h \<in> set (rev [0..<Suc (unat forestRows)]). bit leaves h}"
    by (simp only: getRootsForwards_def set_map set_filter)
  then obtain k where "k \<in> set (rev [0..<Suc (unat forestRows)])" and b: "bit leaves k"
    and xk: "x = ((\<lambda>p. parent p forestRows) ^^ k) (push_bit (Suc k) (drop_bit (Suc k) leaves))"
    by blast
  then have k: "k \<le> unat forestRows"
    by (simp only: set_rev set_upt atLeastLessThan_iff less_Suc_eq_le)
  define s where "s = unat leaves div 2 ^ Suc k * 2 ^ Suc k"
  have s: "unat (push_bit (Suc k) (drop_bit (Suc k) leaves)) = s"
    unfolding s_def by (rule unat_tree_start)
  have "unat leaves = s + unat leaves mod 2 ^ Suc k"
    unfolding s_def by (simp only: div_mult_mod_eq)
  moreover have "2 ^ k \<le> unat leaves mod 2 ^ Suc k"
    using b by (rule bit_word_mod)
  ultimately have sk: "s + 2 ^ k \<le> unat leaves" by linarith
  have sdiv: "s div 2 ^ k * 2 ^ k = s"
  proof -
    have "s = (unat leaves div 2 ^ Suc k * 2) * 2 ^ k"
      by (simp add: s_def)
    then show ?thesis by (metis div_mult_self_is_m zero_less_numeral zero_less_power)
  qed
  have live: "(s div 2 ^ k + 1) * 2 ^ k \<le> unat leaves"
    using sk sdiv by (simp add: algebra_simps)
  have "s < 2 ^ unat forestRows"
  proof -
    have "0 < (2::nat) ^ k" by simp
    with sk n show ?thesis by linarith
  qed
  then have "unat x = nodePos (unat forestRows) (0 + k) (s div 2 ^ k)"
    unfolding xk using r k s
    by (intro funpow_parent_nodePos) (simp_all add: nodePos_def)
  with k live show ?thesis by auto
qed

lemma roots_in_range:
  assumes "unat forestRows \<le> 62" and "unat leaves \<le> 2 ^ unat forestRows"
    and "x \<in> set (getRootsForwards leaves forestRows)"
  shows "unat x < 2 ^ Suc (unat forestRows) - 1"
proof -
  from roots_nodePos [OF assms] obtain k i where k: "k \<le> unat forestRows"
    and l: "(i + 1) * 2 ^ k \<le> unat leaves" and x: "unat x = nodePos (unat forestRows) k i"
    by blast
  have "i < 2 ^ (unat forestRows - k)"
    using k l assms(2) by (rule live_index_bound)
  with k show ?thesis unfolding x by (rule nodePos_less_size)
qed

lemma length_roots_ge:
  assumes "\<forall>k \<le> h. bit leaves k" and "h \<le> unat forestRows"
  shows "Suc h \<le> length (getRootsForwards leaves forestRows)"
proof -
  have "length (getRootsForwards leaves forestRows)
          = length (filter (bit leaves) (rev [0..<Suc (unat forestRows)]))"
    by (simp only: getRootsForwards_def length_map)
  also have "\<dots> = card ({k. bit leaves k} \<inter> set (rev [0..<Suc (unat forestRows)]))"
    by (rule distinct_length_filter) (simp only: distinct_rev distinct_upt)
  finally have l: "length (getRootsForwards leaves forestRows)
      = card ({k. bit leaves k} \<inter> set (rev [0..<Suc (unat forestRows)]))" .
  have "{..h} \<subseteq> {k. bit leaves k} \<inter> set (rev [0..<Suc (unat forestRows)])"
    using assms by (auto simp del: upt_Suc)
  then have "card {..h} \<le> card ({k. bit leaves k} \<inter> set (rev [0..<Suc (unat forestRows)]))"
    by (intro card_mono) (simp_all del: upt_Suc)
  with l show ?thesis by simp
qed

subsection \<open>Adding leaves\<close>

lemma bit_iff_loop_condition:
  fixes leaves :: "64 word"
  shows "drop_bit h leaves AND 1 = 1 \<longleftrightarrow> bit leaves h"
  by (simp only: bit_iff_and_drop_bit_eq_1)

lemma div_exp_less:
  fixes n :: nat
  assumes "n < 2 ^ r" and "h \<le> r"
  shows "n div 2 ^ h < 2 ^ (r - h)"
proof -
  have "(2::nat) ^ r = 2 ^ (r - h) * 2 ^ h"
    using assms(2) by (simp flip: power_add)
  with assms(1) show ?thesis
    by (simp add: less_mult_imp_div_less)
qed

lemma addRise_ok:
  assumes r: "unat forestRows \<le> 62" and n: "unat leaves < 2 ^ unat forestRows"
  shows "length m = 2 ^ Suc (unat forestRows) - 1 \<Longrightarrow> h \<le> unat forestRows \<Longrightarrow>
     (\<forall>k<h. bit leaves k) \<Longrightarrow>
     unat pos = nodePos (unat forestRows) h (unat leaves div 2 ^ h) \<Longrightarrow>
     \<exists>m'. addRise parentHash m (getRootsForwards leaves forestRows) leaves forestRows h pos x = Inr m' \<and>
          length m' = length m \<and>
          (\<forall>p < 2 ^ unat forestRows. m' ! p = m ! p) \<and>
          (\<forall>p < length m. m' ! p = m ! p \<or> (\<exists>a b. m' ! p = parentHash a b)) \<and>
          (\<forall>j. h < j \<longrightarrow> j \<le> unat forestRows \<longrightarrow> (\<forall>k. h \<le> k \<longrightarrow> k < j \<longrightarrow> bit leaves k) \<longrightarrow>
               (\<exists>a b. m' ! nodePos (unat forestRows) j (unat leaves div 2 ^ j) = parentHash a b))"
proof (induction d \<equiv> "unat forestRows - h" arbitrary: h m pos x)
  case 0
  then have hr: "h = unat forestRows" by simp
  have "\<not> bit leaves h"
  proof
    assume "bit leaves h"
    then have "2 ^ h \<le> unat leaves" by (rule bit_word_imp_le)
    with n hr show False by simp
  qed
  then have "addRise parentHash m (getRootsForwards leaves forestRows) leaves forestRows h pos x = Inr m"
    by (subst addRise.simps) (simp only: bit_iff_loop_condition if_False)
  moreover have "\<not> (h < j \<and> j \<le> unat forestRows)" for j
    using hr by simp
  ultimately show ?case by auto
next
  case (Suc d)
  let ?r = "unat forestRows"
  let ?roots = "getRootsForwards leaves forestRows"
  show ?case
  proof (cases "bit leaves h")
    case False
    then have e: "addRise parentHash m ?roots leaves forestRows h pos x = Inr m"
      by (subst addRise.simps) (simp only: bit_iff_loop_condition if_False)
    have "\<not> (h < j \<and> (\<forall>k. h \<le> k \<longrightarrow> k < j \<longrightarrow> bit leaves k))" for j
      using False by auto
    with e show ?thesis by auto
  next
    case True
    have hr: "h < ?r" using Suc.hyps(2) by simp
    have bits: "\<forall>k \<le> h. bit leaves k"
      using True Suc.prems(3) by (auto simp: le_less)
    have len: "Suc h \<le> length ?roots"
      using bits Suc.prems(2) by (rule length_roots_ge)
    define rp where "rp = length ?roots - Suc h"
    have rp: "int (length ?roots) - int (h + 1) = int rp" and rpl: "rp < length ?roots"
      using len by (simp_all add: rp_def)
    have "?roots ! rp \<in> set ?roots" using rpl by simp
    then have "unat (?roots ! rp) < 2 ^ Suc ?r - 1"
      using r n by (intro roots_in_range) simp_all
    then have rd: "ram_read m (?roots ! rp) = Inr (m ! unat (?roots ! rp))"
      using Suc.prems(1) by (simp add: ram_read_def)
    define pos' where "pos' = parent pos forestRows"
    define x' where "x' = parentHash (m ! unat (?roots ! rp)) x"
    have il: "unat leaves div 2 ^ h < 2 ^ (?r - h)"
      using n Suc.prems(2) by (rule div_exp_less)
    have il': "unat leaves div 2 ^ Suc h < 2 ^ (?r - Suc h)"
      using n hr by (intro div_exp_less) simp_all
    have "unat pos' = nodePos ?r (Suc h) (unat leaves div 2 ^ h div 2)"
      unfolding pos'_def using r Suc.prems(2) Suc.prems(4) il by (rule unat_parent_nodePos)
    moreover have "unat leaves div 2 ^ h div 2 = unat leaves div 2 ^ Suc h"
      by (simp only: power_Suc2 div_mult2_eq)
    ultimately have up: "unat pos' = nodePos ?r (Suc h) (unat leaves div 2 ^ Suc h)"
      by simp
    have "nodePos ?r (Suc h) (unat leaves div 2 ^ Suc h) < 2 ^ Suc ?r - 1"
      using hr il' by (intro nodePos_less_size) simp_all
    then have pl: "unat pos' < length m"
      using up Suc.prems(1) by simp
    define m1 where "m1 = m[unat pos' := x']"
    have wr: "ram_write m pos' x' = Inr m1"
      using pl by (simp add: ram_write_def m1_def)
    have step: "addRise parentHash m ?roots leaves forestRows h pos x =
                addRise parentHash m1 ?roots leaves forestRows (Suc h) pos' x'"
      using True
      by (subst addRise.simps)
         (simp only: bit_iff_loop_condition if_True Let_def rp of_nat_less_0_iff if_False nat_int
            rd bindE_def sum.case pos'_def [symmetric] x'_def [symmetric] wr Suc_eq_plus1)
    have ge: "2 ^ ?r \<le> unat pos'"
    proof -
      have "rowStart ?r (Suc 0) \<le> rowStart ?r (Suc h)"
        using hr by (intro rowStart_mono) simp_all
      then show ?thesis
        unfolding up by (simp add: nodePos_def rowStart_Suc)
    qed
    have "d = ?r - Suc h" using Suc.hyps(2) by simp
    moreover have "length m1 = 2 ^ Suc ?r - 1" using Suc.prems(1) by (simp add: m1_def)
    moreover have "Suc h \<le> ?r" using hr by simp
    moreover have "\<forall>k<Suc h. bit leaves k" using bits by (simp add: less_Suc_eq_le)
    ultimately obtain m' where
      a: "addRise parentHash m1 ?roots leaves forestRows (Suc h) pos' x' = Inr m'"
      and b: "length m' = length m1"
      and c: "\<forall>p < 2 ^ ?r. m' ! p = m1 ! p"
      and e: "\<forall>p < length m1. m' ! p = m1 ! p \<or> (\<exists>a b. m' ! p = parentHash a b)"
      and f: "\<forall>j. Suc h < j \<longrightarrow> j \<le> ?r \<longrightarrow> (\<forall>k. Suc h \<le> k \<longrightarrow> k < j \<longrightarrow> bit leaves k) \<longrightarrow>
               (\<exists>a b. m' ! nodePos ?r j (unat leaves div 2 ^ j) = parentHash a b)"
      using Suc.hyps(1) [of "Suc h" m1 pos' x'] up by blast
    have m1_old: "m1 ! p = m ! p" if "p \<noteq> unat pos'" for p
      using that by (simp add: m1_def)
    have m1_new: "m1 ! unat pos' = x'"
      using pl by (simp add: m1_def)
    have c': "\<forall>p < 2 ^ ?r. m' ! p = m ! p"
      using c ge m1_old by auto
    have e': "\<forall>p < length m. m' ! p = m ! p \<or> (\<exists>a b. m' ! p = parentHash a b)"
    proof (intro allI impI)
      fix p assume p: "p < length m"
      then have "p < length m1" by (simp add: m1_def)
      with e have "m' ! p = m1 ! p \<or> (\<exists>a b. m' ! p = parentHash a b)"
        by blast
      moreover have "m1 ! p = m ! p \<or> (\<exists>a b. m1 ! p = parentHash a b)"
        using m1_old [of p] m1_new unfolding x'_def by (cases "p = unat pos'") auto
      ultimately show "m' ! p = m ! p \<or> (\<exists>a b. m' ! p = parentHash a b)" by metis
    qed
    have f': "\<exists>a b. m' ! nodePos ?r j (unat leaves div 2 ^ j) = parentHash a b"
      if "h < j" "j \<le> ?r" "\<forall>k. h \<le> k \<longrightarrow> k < j \<longrightarrow> bit leaves k" for j
    proof (cases "j = Suc h")
      case True
      have "unat pos' < length m1" using pl by (simp add: m1_def)
      with e have "m' ! unat pos' = m1 ! unat pos' \<or> (\<exists>a b. m' ! unat pos' = parentHash a b)"
        by blast
      then show ?thesis
        unfolding True up [symmetric] using m1_new unfolding x'_def by auto
    next
      case False
      with that have "Suc h < j" by simp
      moreover have "\<forall>k. Suc h \<le> k \<longrightarrow> k < j \<longrightarrow> bit leaves k"
        using that(3) by simp
      ultimately show ?thesis using f that(2) by blast
    qed
    show ?thesis
      unfolding step using a b c' e' f' by (simp add: m1_def)
  qed
qed

lemma addOne_ok:
  assumes r: "unat (rows f) \<le> 62" and len: "length (data f) = 2 ^ Suc (unat (rows f)) - 1"
    and n: "unat (numLeaves f) < 2 ^ unat (rows f)"
  shows "\<exists>f'. addOne parentHash f add = Inr f' \<and>
           numLeaves f' = numLeaves f + 1 \<and> rows f' = rows f \<and>
           length (data f') = length (data f) \<and>
           positionMap f' = (positionMap f)(Mini (Hash add) \<mapsto> numLeaves f) \<and>
           data f' ! unat (numLeaves f) = Hash add \<and>
           (\<forall>p < 2 ^ unat (rows f). p \<noteq> unat (numLeaves f) \<longrightarrow> data f' ! p = data f ! p) \<and>
           (\<forall>p < length (data f). data f' ! p = data f ! p \<or> data f' ! p = Hash add \<or>
                (\<exists>a b. data f' ! p = parentHash a b)) \<and>
           (\<forall>j. 0 < j \<longrightarrow> j \<le> unat (rows f) \<longrightarrow> (\<forall>k<j. bit (numLeaves f) k) \<longrightarrow>
                (\<exists>a b. data f' ! nodePos (unat (rows f)) j (unat (numLeaves f) div 2 ^ j) = parentHash a b))"
proof -
  let ?r = "unat (rows f)"
  let ?n = "unat (numLeaves f)"
  have "(1::nat) \<le> 2 ^ ?r" by simp
  then have "(2::nat) ^ ?r \<le> 2 ^ Suc ?r - 1"
    unfolding power_Suc by linarith
  then have nl: "?n < length (data f)"
    using n len by linarith
  define m0 where "m0 = (data f)[?n := Hash add]"
  have wr: "ram_write (data f) (numLeaves f) (Hash add) = Inr m0"
    using nl by (simp add: ram_write_def m0_def)
  have "\<exists>m'. addRise parentHash m0 (getRootsForwards (numLeaves f) (rows f)) (numLeaves f) (rows f)
            0 (numLeaves f) (Hash add) = Inr m' \<and>
          length m' = length m0 \<and>
          (\<forall>p < 2 ^ ?r. m' ! p = m0 ! p) \<and>
          (\<forall>p < length m0. m' ! p = m0 ! p \<or> (\<exists>a b. m' ! p = parentHash a b)) \<and>
          (\<forall>j. 0 < j \<longrightarrow> j \<le> ?r \<longrightarrow> (\<forall>k. 0 \<le> k \<longrightarrow> k < j \<longrightarrow> bit (numLeaves f) k) \<longrightarrow>
               (\<exists>a b. m' ! nodePos ?r j (?n div 2 ^ j) = parentHash a b))"
    using r n len by (intro addRise_ok) (simp_all add: m0_def nodePos_def)
  then obtain m' where
    a: "addRise parentHash m0 (getRootsForwards (numLeaves f) (rows f)) (numLeaves f) (rows f)
            0 (numLeaves f) (Hash add) = Inr m'"
    and b: "length m' = length m0"
    and c: "\<forall>p < 2 ^ ?r. m' ! p = m0 ! p"
    and e: "\<forall>p < length m0. m' ! p = m0 ! p \<or> (\<exists>a b. m' ! p = parentHash a b)"
    and g: "\<forall>j. 0 < j \<longrightarrow> j \<le> ?r \<longrightarrow> (\<forall>k. 0 \<le> k \<longrightarrow> k < j \<longrightarrow> bit (numLeaves f) k) \<longrightarrow>
               (\<exists>a b. m' ! nodePos ?r j (?n div 2 ^ j) = parentHash a b)"
    by blast
  define f' where "f' = f\<lparr>positionMap := (positionMap f)(Mini (Hash add) \<mapsto> numLeaves f),
                           data := m', numLeaves := numLeaves f + 1\<rparr>"
  have res: "addOne parentHash f add = Inr f'"
    by (simp add: addOne_def Let_def wr a bindE_def f'_def)
  have m0n: "m0 ! ?n = Hash add" using nl by (simp add: m0_def)
  have m0o: "m0 ! p = data f ! p" if "p \<noteq> ?n" for p using that by (simp add: m0_def)
  have l0: "length m0 = length (data f)" by (simp add: m0_def)
  have 1: "data f' ! ?n = Hash add"
    using c n m0n by (simp add: f'_def)
  have 2: "\<forall>p < 2 ^ ?r. p \<noteq> ?n \<longrightarrow> data f' ! p = data f ! p"
    using c m0o by (simp add: f'_def)
  have 3: "\<forall>p < length (data f). data f' ! p = data f ! p \<or> data f' ! p = Hash add \<or>
                (\<exists>a b. data f' ! p = parentHash a b)"
  proof (intro allI impI)
    fix p assume "p < length (data f)"
    then have "m' ! p = m0 ! p \<or> (\<exists>a b. m' ! p = parentHash a b)"
      using e l0 by simp
    moreover have "m0 ! p = data f ! p \<or> m0 ! p = Hash add"
      using m0n m0o [of p] by (cases "p = ?n") simp_all
    ultimately show "data f' ! p = data f ! p \<or> data f' ! p = Hash add \<or>
        (\<exists>a b. data f' ! p = parentHash a b)"
      unfolding f'_def by auto
  qed
  have 4: "\<forall>j. 0 < j \<longrightarrow> j \<le> ?r \<longrightarrow> (\<forall>k<j. bit (numLeaves f) k) \<longrightarrow>
              (\<exists>a b. data f' ! nodePos ?r j (?n div 2 ^ j) = parentHash a b)"
    using g by (simp add: f'_def)
  show ?thesis
    using res b l0 1 2 3 4 by (intro exI [of _ f']) (simp add: f'_def)
qed

lemma unat_Suc_leaves:
  fixes n :: "64 word"
  assumes "unat n < 2 ^ r" and "r \<le> 62"
  shows "unat (n + 1) = Suc (unat n)"
proof -
  have "(2::nat) ^ r \<le> 2 ^ 62"
    using assms(2) by (rule power_increasing) simp
  then have "unat n + unat (1 :: 64 word) < 2 ^ LENGTH(64)"
    using assms(1) by simp
  then have "unat (n + 1) = unat n + unat (1 :: 64 word)"
    by (simp only: unat_add_lem)
  then show ?thesis by simp
qed

lemma addv2_ok:
  "unat (rows f) \<le> 62 \<Longrightarrow> length (data f) = 2 ^ Suc (unat (rows f)) - 1 \<Longrightarrow>
   unat (numLeaves f) + length adds \<le> 2 ^ unat (rows f) \<Longrightarrow>
   \<exists>f'. addv2 parentHash f adds = Inr f' \<and>
        numLeaves f' = numLeaves f + of_nat (length adds) \<and>
        unat (numLeaves f') = unat (numLeaves f) + length adds \<and>
        rows f' = rows f \<and>
        length (data f') = length (data f) \<and>
        (\<forall>p < unat (numLeaves f). data f' ! p = data f ! p) \<and>
        (\<forall>i < length adds. data f' ! (unat (numLeaves f) + i) = Hash (adds ! i)) \<and>
        (\<forall>k. k \<notin> (\<lambda>a. Mini (Hash a)) ` set adds \<longrightarrow> positionMap f' k = positionMap f k) \<and>
        (\<forall>i < length adds. \<exists>j. i \<le> j \<and> j < length adds \<and>
             Mini (Hash (adds ! j)) = Mini (Hash (adds ! i)) \<and>
             positionMap f' (Mini (Hash (adds ! i))) = Some (numLeaves f + of_nat j))"
proof (induction adds arbitrary: f)
  case Nil
  then show ?case by simp
next
  case (Cons a as)
  let ?r = "unat (rows f)"
  let ?n = "unat (numLeaves f)"
  have n: "?n < 2 ^ ?r" using Cons.prems(3) by simp
  from addOne_ok [OF Cons.prems(1) Cons.prems(2) n, of parentHash a]
  obtain f1 where
    s1: "addOne parentHash f a = Inr f1"
    and n1: "numLeaves f1 = numLeaves f + 1"
    and r1: "rows f1 = rows f"
    and l1: "length (data f1) = length (data f)"
    and p1: "positionMap f1 = (positionMap f)(Mini (Hash a) \<mapsto> numLeaves f)"
    and d1: "data f1 ! ?n = Hash a"
    and o1: "\<forall>p < 2 ^ ?r. p \<noteq> ?n \<longrightarrow> data f1 ! p = data f ! p"
    by (elim exE conjE)
  have u1: "unat (numLeaves f1) = Suc ?n"
    using n Cons.prems(1) by (simp add: n1 unat_Suc_leaves)
  have "\<exists>f'. addv2 parentHash f1 as = Inr f' \<and>
        numLeaves f' = numLeaves f1 + of_nat (length as) \<and>
        unat (numLeaves f') = unat (numLeaves f1) + length as \<and>
        rows f' = rows f1 \<and>
        length (data f') = length (data f1) \<and>
        (\<forall>p < unat (numLeaves f1). data f' ! p = data f1 ! p) \<and>
        (\<forall>i < length as. data f' ! (unat (numLeaves f1) + i) = Hash (as ! i)) \<and>
        (\<forall>k. k \<notin> (\<lambda>a. Mini (Hash a)) ` set as \<longrightarrow> positionMap f' k = positionMap f1 k) \<and>
        (\<forall>i < length as. \<exists>j. i \<le> j \<and> j < length as \<and>
             Mini (Hash (as ! j)) = Mini (Hash (as ! i)) \<and>
             positionMap f' (Mini (Hash (as ! i))) = Some (numLeaves f1 + of_nat j))"
    using Cons.prems by (intro Cons.IH) (simp_all add: r1 l1 u1)
  then obtain f' where
    s2: "addv2 parentHash f1 as = Inr f'"
    and n2: "numLeaves f' = numLeaves f1 + of_nat (length as)"
    and u2: "unat (numLeaves f') = unat (numLeaves f1) + length as"
    and r2: "rows f' = rows f1"
    and l2: "length (data f') = length (data f1)"
    and o2: "\<forall>p < unat (numLeaves f1). data f' ! p = data f1 ! p"
    and d2: "\<forall>i < length as. data f' ! (unat (numLeaves f1) + i) = Hash (as ! i)"
    and k2: "\<forall>k. k \<notin> (\<lambda>a. Mini (Hash a)) ` set as \<longrightarrow> positionMap f' k = positionMap f1 k"
    and j2: "\<forall>i < length as. \<exists>j. i \<le> j \<and> j < length as \<and>
             Mini (Hash (as ! j)) = Mini (Hash (as ! i)) \<and>
             positionMap f' (Mini (Hash (as ! i))) = Some (numLeaves f1 + of_nat j)"
    by (elim exE conjE)
  have res: "addv2 parentHash f (a # as) = Inr f'"
    by (simp add: s1 s2 bindE_def)
  have A: "numLeaves f' = numLeaves f + of_nat (length (a # as))"
    by (simp add: n2 n1)
  have B: "unat (numLeaves f') = ?n + length (a # as)"
    by (simp add: u2 u1)
  have C: "\<forall>p < ?n. data f' ! p = data f ! p"
  proof (intro allI impI)
    fix p assume p: "p < ?n"
    then have "data f' ! p = data f1 ! p" using o2 u1 by simp
    also have "\<dots> = data f ! p" using o1 p n by simp
    finally show "data f' ! p = data f ! p" .
  qed
  have D: "\<forall>i < length (a # as). data f' ! (?n + i) = Hash ((a # as) ! i)"
  proof (intro allI impI)
    fix i assume i: "i < length (a # as)"
    show "data f' ! (?n + i) = Hash ((a # as) ! i)"
    proof (cases i)
      case 0
      have "data f' ! ?n = data f1 ! ?n" using o2 u1 by simp
      then show ?thesis using 0 d1 by simp
    next
      case (Suc i')
      then have "i' < length as" using i by simp
      then have "data f' ! (unat (numLeaves f1) + i') = Hash (as ! i')" using d2 by blast
      then show ?thesis using Suc u1 by simp
    qed
  qed
  have E: "\<forall>k. k \<notin> (\<lambda>a. Mini (Hash a)) ` set (a # as) \<longrightarrow> positionMap f' k = positionMap f k"
    using k2 p1 by simp
  have step: "numLeaves f1 + of_nat j = numLeaves f + of_nat (Suc j)" for j
    by (simp add: n1)
  have later: "\<exists>j. Suc i' \<le> j \<and> j < length (a # as) \<and>
             Mini (Hash ((a # as) ! j)) = Mini (Hash (as ! i')) \<and>
             positionMap f' (Mini (Hash (as ! i'))) = Some (numLeaves f + of_nat j)"
    if lt: "i' < length as" for i'
  proof -
    from j2 lt have "\<exists>j. i' \<le> j \<and> j < length as \<and> Mini (Hash (as ! j)) = Mini (Hash (as ! i')) \<and>
      positionMap f' (Mini (Hash (as ! i'))) = Some (numLeaves f1 + of_nat j)"
      by simp
    then obtain j where "i' \<le> j" "j < length as" "Mini (Hash (as ! j)) = Mini (Hash (as ! i'))"
      "positionMap f' (Mini (Hash (as ! i'))) = Some (numLeaves f1 + of_nat j)"
      by (elim exE conjE)
    then show ?thesis
      using step [of j] by (intro exI [of _ "Suc j"]) simp
  qed
  have F: "\<forall>i < length (a # as). \<exists>j. i \<le> j \<and> j < length (a # as) \<and>
             Mini (Hash ((a # as) ! j)) = Mini (Hash ((a # as) ! i)) \<and>
             positionMap f' (Mini (Hash ((a # as) ! i))) = Some (numLeaves f + of_nat j)"
  proof (intro allI impI)
    fix i assume i: "i < length (a # as)"
    show "\<exists>j. i \<le> j \<and> j < length (a # as) \<and>
             Mini (Hash ((a # as) ! j)) = Mini (Hash ((a # as) ! i)) \<and>
             positionMap f' (Mini (Hash ((a # as) ! i))) = Some (numLeaves f + of_nat j)"
    proof (cases i)
      case 0
      show ?thesis
      proof (cases "Mini (Hash a) \<in> (\<lambda>a. Mini (Hash a)) ` set as")
        case True
        then obtain i' where i': "i' < length as" "Mini (Hash (as ! i')) = Mini (Hash a)"
          by (auto simp: in_set_conv_nth)
        from later [OF i'(1)] obtain j where "Suc i' \<le> j" "j < length (a # as)"
          "Mini (Hash ((a # as) ! j)) = Mini (Hash (as ! i'))"
          "positionMap f' (Mini (Hash (as ! i'))) = Some (numLeaves f + of_nat j)"
          by blast
        then show ?thesis
          using 0 i'(2) by (intro exI [of _ j]) simp
      next
        case False
        then have "positionMap f' (Mini (Hash a)) = positionMap f1 (Mini (Hash a))"
          using k2 by blast
        then show ?thesis
          using 0 p1 by (intro exI [of _ 0]) simp
      qed
    next
      case (Suc i')
      then have "i' < length as" using i by simp
      from later [OF this] obtain j where "Suc i' \<le> j" "j < length (a # as)"
          "Mini (Hash ((a # as) ! j)) = Mini (Hash (as ! i'))"
          "positionMap f' (Mini (Hash (as ! i'))) = Some (numLeaves f + of_nat j)"
        by blast
      then show ?thesis
        using Suc by (intro exI [of _ j]) simp
    qed
  qed
  have G: "rows f' = rows f" "length (data f') = length (data f)"
    by (simp_all add: r2 r1 l2 l1)
  show ?case
    using res A B G C D E F by (intro exI [of _ f'] conjI)
qed

subsection \<open>Add without validation\<close>

text \<open>
  Counterexample to C9 as stated (success for every list of leaves): the new RAM forest has one
  slot, so \<^verbatim>\<open>Add\<close> of two leaves writes the second leaf at position 1, beyond the slice, and
  the index expression of \<^verbatim>\<open>ramForestData.write\<close> panics.
\<close>

theorem C9_Add_beyond_capacity_panics:
  "Add tH NewForest [\<lparr>Hash = 1, Remember = False\<rparr>, \<lparr>Hash = 2, Remember = False\<rparr>] = Inl Panic"
  by (simp add: Add_def NewForest_def addOne_def Let_def bindE_def ram_write_def
      addRise.simps [of _ _ _ _ _ 0])



subsection \<open>Persistence round trip\<close>

lemma length_hashBytes: "length (hashBytes h) = 32"
  by (simp add: hashBytes_def length_be_encode)

lemma bytesHash_hashBytes: "bytesHash (hashBytes h) = h"
proof -
  have "unat h < 2 ^ LENGTH(256)" by (rule unsigned_less)
  moreover have "(256::nat) ^ 32 = 2 ^ 256" by simp
  ultimately have "unat h mod 256 ^ 32 = unat h" by simp
  then show ?thesis
    by (simp add: bytesHash_def hashBytes_def be_decode_encode)
qed

lemma length_ramBytes: "length (ramBytes m) = 32 * length m"
  by (induction m) (simp_all add: ramBytes_def length_hashBytes)

lemma ramBytes_nth:
  "i < length m \<Longrightarrow> take 32 (drop (32 * i) (ramBytes m @ rest)) = hashBytes (m ! i)"
proof (induction m arbitrary: i)
  case Nil
  then show ?case by simp
next
  case (Cons a m)
  have c: "ramBytes (a # m) = hashBytes a @ ramBytes m"
    by (simp add: ramBytes_def)
  show ?case
  proof (cases i)
    case 0
    then show ?thesis by (simp add: c length_hashBytes)
  next
    case (Suc j)
    then have "j < length m" using Cons.prems by simp
    then have "take 32 (drop (32 * j) (ramBytes m @ rest)) = hashBytes (m ! j)"
      by (rule Cons.IH)
    moreover have "drop (32 * Suc j) (hashBytes a @ ramBytes m @ rest) = drop (32 * j) (ramBytes m @ rest)"
      by (simp add: length_hashBytes)
    ultimately show ?thesis using Suc by (simp add: c)
  qed
qed

lemma bytesRam_ramBytes: "bytesRam (ramBytes m) = m"
proof -
  have "map (\<lambda>i. bytesHash (take 32 (drop (32 * i) (ramBytes m)))) [0..<length m]
          = map (\<lambda>i. m ! i) [0..<length m]"
  proof (rule map_cong [OF refl])
    fix i assume "i \<in> set [0..<length m]"
    then have "i < length m" by simp
    from ramBytes_nth [OF this, of "[]"] show "bytesHash (take 32 (drop (32 * i) (ramBytes m))) = m ! i"
      by (simp add: bytesHash_hashBytes)
  qed
  then show ?thesis
    by (simp add: bytesRam_def length_ramBytes map_nth)
qed

lemma readLoop_reads:
  "\<not> broken f \<Longrightarrow> fpos f = length got \<Longrightarrow> length got \<le> want \<Longrightarrow> want \<le> length (contents f) \<Longrightarrow>
   got = take (length got) (contents f) \<Longrightarrow> readLoop f want got = Inr (take want (contents f))"
proof (induction f want got rule: readLoop.induct)
  case (1 f want got)
  show ?case
  proof (cases "length got < want")
    case False
    then have "length got = want" using "1.prems"(3) by simp
    then show ?thesis
      using "1.prems"(5) by (subst readLoop.simps) simp
  next
    case True
    define n where "n = min (min (want - length got) maxRW) (length (contents f) - fpos f)"
    define bs where "bs = take n (drop (fpos f) (contents f))"
    define f' where "f' = f\<lparr>fpos := fpos f + n\<rparr>"
    have n0: "0 < n"
      using True "1.prems"(2,4) by (simp add: n_def maxRW_def)
    have nw: "n \<le> want - length got" by (simp add: n_def)
    have rd: "fileRead f (want - length got) = Some (bs, f')"
      using n0 "1.prems"(1) by (simp add: fileRead_def Let_def n_def [symmetric] bs_def f'_def)
    have lb: "length bs = n"
      using nw True "1.prems"(2,4) by (simp add: bs_def)
    have lg: "length (got @ bs) = length got + n" by (simp add: lb)
    have cf: "contents f' = contents f" by (simp add: f'_def)
    have "got @ bs = take (length got) (contents f) @ take n (drop (length got) (contents f))"
      using "1.prems"(2,5) by (simp add: bs_def)
    also have "\<dots> = take (length got + n) (contents f)"
      by (simp add: take_add)
    finally have g: "got @ bs = take (length (got @ bs)) (contents f')"
      unfolding lg cf .
    have "readLoop f' want (got @ bs) = Inr (take want (contents f'))"
      using True rd "1.prems" nw g by (intro "1.IH") (simp_all add: f'_def lb)
    then show ?thesis
      using True rd by (subst readLoop.simps) (simp add: f'_def)
  qed
qed

lemma rebuildMap_snoc:
  "rebuildMap m (xs @ [x]) pm =
     bindE (rebuildMap m xs pm) (\<lambda>q.
       bindE (ram_read m (of_nat x)) (\<lambda>h. Inr (q(Mini h \<mapsto> of_nat x))))"
proof (induction xs arbitrary: pm)
  case Nil
  show ?case by (simp add: bindE_def del: fun_upd_apply)
next
  case (Cons a xs)
  show ?case
    by (cases "ram_read m (of_nat a)") (simp_all add: bindE_def Cons.IH del: fun_upd_apply)
qed

lemma rebuildMap_scan:
  "n \<le> length m \<Longrightarrow> n < 2 ^ 64 \<Longrightarrow>
   \<exists>pm. rebuildMap m [0..<n] Map.empty = Inr pm \<and>
     (\<forall>k p. pm k = Some p \<longleftrightarrow>
        (\<exists>i<n. p = of_nat i \<and> Mini (m ! i) = k \<and> (\<forall>j. i < j \<and> j < n \<longrightarrow> Mini (m ! j) \<noteq> k)))"
proof (induction n)
  case 0
  show ?case by simp
next
  case (Suc n)
  then obtain pm where r: "rebuildMap m [0..<n] Map.empty = Inr pm"
    and c: "\<And>k p. pm k = Some p \<longleftrightarrow>
        (\<exists>i<n. p = of_nat i \<and> Mini (m ! i) = k \<and> (\<forall>j. i < j \<and> j < n \<longrightarrow> Mini (m ! j) \<noteq> k))"
    by auto
  have "unat (of_nat n :: 64 word) = n"
    using Suc.prems(2) by (simp add: unat_of_nat)
  then have rd: "ram_read m (of_nat n) = Inr (m ! n)"
    using Suc.prems(1) by (simp add: ram_read_def)
  define pm' where "pm' = pm(Mini (m ! n) \<mapsto> of_nat n)"
  have res: "rebuildMap m [0..<Suc n] Map.empty = Inr pm'"
    by (simp add: rebuildMap_snoc r rd bindE_def pm'_def)
  have "pm' k = Some p \<longleftrightarrow>
        (\<exists>i<Suc n. p = of_nat i \<and> Mini (m ! i) = k \<and> (\<forall>j. i < j \<and> j < Suc n \<longrightarrow> Mini (m ! j) \<noteq> k))"
    for k p
  proof (cases "k = Mini (m ! n)")
    case True
    have "(\<exists>i<Suc n. p = of_nat i \<and> Mini (m ! i) = k \<and> (\<forall>j. i < j \<and> j < Suc n \<longrightarrow> Mini (m ! j) \<noteq> k))
        \<longleftrightarrow> p = of_nat n"
    proof
      assume "\<exists>i<Suc n. p = of_nat i \<and> Mini (m ! i) = k \<and> (\<forall>j. i < j \<and> j < Suc n \<longrightarrow> Mini (m ! j) \<noteq> k)"
      then obtain i where i: "i < Suc n" "p = of_nat i"
        "\<forall>j. i < j \<and> j < Suc n \<longrightarrow> Mini (m ! j) \<noteq> k" by blast
      have "\<not> i < n" using i(3) True by auto
      then have "i = n" using i(1) by linarith
      then show "p = of_nat n" using i(2) by simp
    next
      assume "p = of_nat n"
      then show "\<exists>i<Suc n. p = of_nat i \<and> Mini (m ! i) = k \<and> (\<forall>j. i < j \<and> j < Suc n \<longrightarrow> Mini (m ! j) \<noteq> k)"
        using True by (intro exI [of _ n]) auto
    qed
    then show ?thesis using True by (auto simp: pm'_def)
  next
    case False
    have "(\<exists>i<Suc n. p = of_nat i \<and> Mini (m ! i) = k \<and> (\<forall>j. i < j \<and> j < Suc n \<longrightarrow> Mini (m ! j) \<noteq> k))
        \<longleftrightarrow> (\<exists>i<n. p = of_nat i \<and> Mini (m ! i) = k \<and> (\<forall>j. i < j \<and> j < n \<longrightarrow> Mini (m ! j) \<noteq> k))"
      using False by (auto simp: less_Suc_eq)
    then show ?thesis using False c [of k p] by (simp add: pm'_def)
  qed
  with res show ?case by blast
qed

lemma misc_contents:
  "WriteMiscData f (openFile old False) = Inr mf \<Longrightarrow>
   contents mf = be_encode 8 (unat (numLeaves f)) @ be_encode 1 (unat (rows f)) @ drop 9 old"
  by (auto simp: WriteMiscData_def openFile_def fileWrite_def pwrite_def length_be_encode
      split: option.splits if_splits)

lemma misc_written:
  "\<exists>mf. WriteMiscData f (openFile old False) = Inr mf \<and>
     contents mf = be_encode 8 (unat (numLeaves f)) @ be_encode 1 (unat (rows f)) @ drop 9 old"
  by (simp add: WriteMiscData_def openFile_def fileWrite_def pwrite_def length_be_encode)

lemma forest_written:
  "\<exists>df. WriteForestToDisk f (openFile old False) True = Inr df \<and>
     contents df = ramBytes (data f) @ drop (32 * length (data f)) old"
  by (simp add: WriteForestToDisk_def openFile_def seekStart_def fileWrite_def pwrite_def
      length_ramBytes)

lemma unat_array_size:
  fixes r :: "8 word"
  assumes "unat r \<le> 62"
  shows "unat (push_bit (unat r) 2 - 1 :: 64 word) = 2 ^ Suc (unat r) - 1"
proof -
  have e: "(push_bit (unat r) 2 :: 64 word) = push_bit (Suc (unat r)) 1"
    by (simp add: push_bit_eq_mult)
  have u: "unat (push_bit (Suc (unat r)) 1 :: 64 word) = 2 ^ Suc (unat r)"
    using assms by (intro unat_push_bit_1) simp
  then have "push_bit (Suc (unat r)) 1 \<noteq> (0 :: 64 word)"
    by (metis power_not_zero unat_0 zero_neq_numeral)
  then have "unat (push_bit (Suc (unat r)) 1 - 1 :: 64 word) = unat (push_bit (Suc (unat r)) 1 :: 64 word) - 1"
    by (rule unat_minus_one)
  then show ?thesis
    unfolding e u .
qed

lemma resize_new:
  fixes r :: "8 word"
  assumes "unat r \<le> 62"
  shows "ram_resize [] (push_bit (unat r) 2 - 1) = Inr (replicate (2 ^ Suc (unat r) - 1) 0)"
proof -
  define w :: "64 word" where "w = push_bit (unat r) 2 - 1"
  have u: "unat w = 2 ^ Suc (unat r) - 1"
    unfolding w_def using assms by (rule unat_array_size)
  have "(2::nat) ^ Suc (unat r) \<le> 2 ^ 63"
    using assms by (intro power_increasing) simp_all
  then have "unat w < 2 ^ 63" using u by simp
  then have "\<not> (2 ^ 63 \<le> w)"
    by (simp add: word_le_nat_alt)
  then show ?thesis
    by (simp add: ram_resize_def ram_size_def Let_def w_def [symmetric] u)
qed

lemma be_decode_zeros: "be_decode (replicate n 0 @ bs) = be_decode bs"
  by (induction n) (simp_all add: be_decode_def)

lemma be_decode_zeros_only: "be_decode (replicate n 0) = 0"
  using be_decode_zeros [of n "[]"] by (simp add: be_decode_def)

text \<open>
  Counterexample to C8 as stated (every height above 0). At height \<open>2 ^ 29\<close> the product
  \<^verbatim>\<open>8*height\<close> wraps to 0 in \<^verbatim>\<open>int32\<close>: the reader takes the offset of block 0, finds
  the good record there and returns its empty payload after allocating it, although the
  record at the offset recorded for height \<open>2 ^ 29\<close> has a wrong magic.
\<close>

theorem C8_wrapped_height_counterexample:
  "recordedOffset exWrapOffsets (unat (2 ^ 29 :: 32 word)) = Some 8 \<and>
   bytesAt exWrapProofs 8 4 \<noteq> realMagic \<and>
   GetUDataBytesFromFile \<lparr>pOffsetFile = Some exWrapOffsets, pFile = Some exWrapProofs\<rparr> (2 ^ 29)
     = ([EvOpen OffsetFile, EvOpen ProofFile, EvSeek OffsetFile 0, EvRead OffsetFile 8,
         EvSeek ProofFile 0, EvRead ProofFile 4, EvRead ProofFile 4, EvAlloc 0,
         EvRead ProofFile 0, EvClose OffsetFile, EvClose ProofFile], Inr [])"
proof (intro conjI)
  have u: "unat (2 ^ 29 :: 32 word) = 536870912" by simp
  show "recordedOffset exWrapOffsets (unat (2 ^ 29 :: 32 word)) = Some 8"
    unfolding u by (simp add: recordedOffset_def exWrapOffsets_def bytesAt_def be_decode_def)
  show "bytesAt exWrapProofs 8 4 \<noteq> realMagic"
    by (simp add: bytesAt_def exWrapProofs_def realMagic_def)
  have w: "8 * (2 ^ 29 :: 32 word) = 0" by simp
  have t: "take 8 exWrapOffsets = replicate 8 0"
    by (simp add: exWrapOffsets_def)
  have l: "\<not> length exWrapOffsets < 8"
    by (simp add: exWrapOffsets_def)
  have n: "(2 ^ 29 :: 32 word) \<noteq> 0" by simp
  show "GetUDataBytesFromFile \<lparr>pOffsetFile = Some exWrapOffsets, pFile = Some exWrapProofs\<rparr> (2 ^ 29)
     = ([EvOpen OffsetFile, EvOpen ProofFile, EvSeek OffsetFile 0, EvRead OffsetFile 8,
         EvSeek ProofFile 0, EvRead ProofFile 4, EvRead ProofFile 4, EvAlloc 0,
         EvRead ProofFile 0, EvClose OffsetFile, EvClose ProofFile], Inr [])"
    using n l
    by (simp add: GetUDataBytesFromFile_def readProof_def w t be_decode_zeros_only Let_def)
       (simp add: exWrapProofs_def realMagic_def be_decode_def)
qed

lemma readProof_negative_seek:
  "sint (8 * height) < 0 \<Longrightarrow>
   readProof offs pf height =
     ([EvOpen OffsetFile, EvOpen ProofFile, EvSeek OffsetFile (sint (8 * height))], Inl ErrSeek)"
  by (simp add: readProof_def Let_def)

text \<open>
  Claim C8, amended. For a height below \<open>2 ^ 28\<close>, so that \<^verbatim>\<open>8*height\<close> fits \<^verbatim>\<open>int32\<close>, and
  for a height whose product wraps to a negative \<^verbatim>\<open>int32\<close> (the seek in the offset file then
  fails): when the 4 bytes at the offset recorded for the height are not the magic, or the
  recorded payload length exceeds \<open>2 ^ 24\<close>, \<^verbatim>\<open>GetUDataBytesFromFile\<close> returns an error and
  its trace holds no allocation, the payload buffer being made only after both checks have
  passed.
\<close>

theorem C8_rejects_below_wrap:
  assumes "unat height < 2 ^ 28 \<or> sint (8 * height) < 0"
    and "pOffsetFile d = Some offs" and "pFile d = Some pf"
    and "recordedOffset offs (unat height) = Some off"
    and "bytesAt pf off 4 \<noteq> realMagic \<or> 2 ^ 24 < recordedLength pf off"
  shows "isl (snd (GetUDataBytesFromFile d height)) \<and>
         EvAlloc n \<notin> set (fst (GetUDataBytesFromFile d height))"
proof (cases "height = 0")
  case True
  then show ?thesis by (simp add: GetUDataBytesFromFile_def)
next
  case False
  then have g: "GetUDataBytesFromFile d height = readProof offs pf height"
    using assms(2,3) by (simp add: GetUDataBytesFromFile_def)
  show ?thesis
  proof (cases "sint (8 * height) < 0")
    case True
    then show ?thesis
      unfolding g by (simp add: readProof_negative_seek)
  next
    case False
    with assms(1) have "unat height < 2 ^ 28" by blast
    from readProof_rejects [OF this assms(4) assms(5)] show ?thesis
      unfolding g by simp
  qed
qed

theorem C8_rejects_below_wrap_witness:
  "unat (1 :: 32 word) < 2 ^ 28 \<and>
   recordedOffset exOffsets (unat (1 :: 32 word)) = Some 3 \<and>
   bytesAt exBadProofs 3 4 \<noteq> realMagic \<and>
   isl (snd (GetUDataBytesFromFile \<lparr>pOffsetFile = Some exOffsets, pFile = Some exBadProofs\<rparr> 1)) \<and>
   EvAlloc 2 \<notin> set (fst (GetUDataBytesFromFile \<lparr>pOffsetFile = Some exOffsets, pFile = Some exBadProofs\<rparr> 1))"
proof -
  have a: "unat (1 :: 32 word) < 2 ^ 28 \<or> sint (8 * (1 :: 32 word)) < 0" by simp
  have b: "recordedOffset exOffsets (unat (1 :: 32 word)) = Some 3"
    by (simp add: recordedOffset_def exOffsets_def bytesAt_def be_decode_def)
  have c: "bytesAt exBadProofs 3 4 \<noteq> realMagic"
    by (simp add: bytesAt_def exBadProofs_def realMagic_def)
  show ?thesis
    using C8_rejects_below_wrap [of 1 "\<lparr>pOffsetFile = Some exOffsets, pFile = Some exBadProofs\<rparr>"
        exOffsets exBadProofs 3 2, OF a _ _ b] b c
    by simp
qed

subsection \<open>The rise of removev5\<close>

lemma promote_rows: "promote f p = Inr f' \<Longrightarrow> rows f' = rows f"
  by (auto simp: promote_def Let_def bindE_def split: sum.splits)

lemma climb_result:
  assumes "climb g q = Some y"
  shows "\<forall>g' q'. y = Inr (g', q') \<longrightarrow>
     lonely g' q' = Inr False \<and> rows g' = rows g \<and> (\<exists>k. q' = ((\<lambda>x. parent x (rows g)) ^^ k) q)"
  using assms
proof (induction rule: climb.raw_induct)
  case (1 climb' g q y)
  show ?case
  proof (cases "lonely g q")
    case (Inl e)
    with "1.hyps" have "y = Inl e" by simp
    then show ?thesis by simp
  next
    case (Inr b)
    show ?thesis
    proof (cases b)
      case False
      with Inr "1.hyps" have y: "y = Inr (g, q)" by simp
      have l: "lonely g q = Inr False" using Inr False by simp
      have "\<exists>k. q = ((\<lambda>x. parent x (rows g)) ^^ k) q"
        by (rule exI [of _ 0]) simp
      with y l show ?thesis by simp
    next
      case True
      define step where "step = bindE (ram_read (data g) (parent q (rows g) XOR 1)) (\<lambda>s.
              if s \<noteq> empty_hash then promote g (parent q (rows g) XOR 1)
              else promote g (parent q (rows g)))"
      show ?thesis
      proof (cases step)
        case (Inl e)
        with Inr True "1.hyps" have "y = Inl e"
          by (simp add: Let_def step_def)
        then show ?thesis by simp
      next
        case st: (Inr g2)
        then have r2: "rows g2 = rows g"
          by (auto simp: step_def bindE_def split: sum.splits if_splits dest: promote_rows)
        from st Inr True "1.hyps" have c1: "climb' g2 (parent q (rows g)) = Some y"
          by (simp add: Let_def step_def)
        have "lonely g q = Inr True" using Inr True by simp
        from climb_lonely [OF this] st "1"(3) have c2: "climb g2 (parent q (rows g)) = Some y"
          by (simp add: step_def)
        from "1.IH" [OF c1 c2] have ih: "\<forall>g' q'. y = Inr (g', q') \<longrightarrow>
            lonely g' q' = Inr False \<and> rows g' = rows g2 \<and>
            (\<exists>k. q' = ((\<lambda>x. parent x (rows g2)) ^^ k) (parent q (rows g)))" .
        show ?thesis
        proof (intro allI impI)
          fix g' q' assume "y = Inr (g', q')"
          with ih obtain k where a: "lonely g' q' = Inr False" "rows g' = rows g2"
            and k: "q' = ((\<lambda>x. parent x (rows g2)) ^^ k) (parent q (rows g))"
            by blast
          have "q' = ((\<lambda>x. parent x (rows g)) ^^ Suc k) q"
            unfolding k r2 by (simp only: funpow_Suc_right o_apply)
          then have "\<exists>k. q' = ((\<lambda>x. parent x (rows g)) ^^ k) q"
            by (rule exI)
          with a r2 show "lonely g' q' = Inr False \<and> rows g' = rows g \<and>
              (\<exists>k. q' = ((\<lambda>x. parent x (rows g)) ^^ k) q)"
            by simp
        qed
      qed
    qed
  qed
qed (rule assms)

lemma exLonely1_turn:
  "bindE (ram_read (data exLonely1) (parent 2 (rows exLonely1) XOR 1)) (\<lambda>s.
       if s \<noteq> empty_hash then promote exLonely1 (parent 2 (rows exLonely1) XOR 1)
       else promote exLonely1 (parent 2 (rows exLonely1))) = Inr exLonely2"
  by (simp add: promote_def exLonely_def exLonely1_def exLonely2_def parent_def ram_read_def
      ram_write_def bindE_def Let_def empty_hash_def)

lemma exLonely2_not_lonely: "lonely exLonely2 5 = Inr False"
  by code_simp

lemma exLonely_positions:
  "parent 2 (rows exLonely1) = 5" "parent 5 (rows exLonely2) = 6"
  by (simp_all add: exLonely_def exLonely1_def exLonely2_def parent_def)

text \<open>
  Claim C3, amended. \<^verbatim>\<open>removev5\<close> runs the body \<open>removeOne\<close> on each position of
  \<^verbatim>\<open>condenseDeletions(dels, rows)\<close> in turn. In the body, after the sibling's hash is written
  into \<open>parent p\<close>: if \<open>p\<close> is not lonely the routine rises once and then runs the loop,
  which is the spec's wording; if \<open>p\<close> is lonely it runs the loop from \<open>p\<close> itself. The loop
  leaves a position that is not lonely where it is; at a lonely position it rises to the
  parent, promotes the parent's sibling if that is not empty and the parent otherwise, and
  goes on from the parent; so when it ends, it ends some parents above where it started,
  at a position that is not lonely. \<open>p\<close> is lonely iff aunt and sibling are both in the
  forest and one of them reads empty.
\<close>

theorem C3_removev5_rises_while_lonely:
  assumes "promote f (p XOR 1) = Inr f1"
  shows "(removev5 f0 dels =
           (case deleteFromMap f0 dels of
              Inl e \<Rightarrow> Some (Inl e)
            | Inr g0 \<Rightarrow>
                map_option (map_sum id (\<lambda>(g1, dirt). g1\<lparr>numLeaves := numLeaves g1 - of_nat (length dels)\<rparr>))
                  (removeLoop g0 [] (condenseDeletions dels (rows g0))))) \<and>
         (removeLoop f dirt (p # ps) =
           (case removeOne f p of
              None \<Rightarrow> None
            | Some (Inl e) \<Rightarrow> Some (Inl e)
            | Some (Inr (f', dirtpos)) \<Rightarrow>
                removeLoop f' (if dirt = [] \<or> last dirt \<noteq> dirtpos then dirt @ [dirtpos] else dirt) ps)) \<and>
         (lonely f1 p = Inr False \<longrightarrow>
           removeOne f p = dirtAbove (climb f1 (parent p (rows f1))) \<and>
           removeOne f p = removeOne_spec f p) \<and>
         (lonely f1 p = Inr True \<longrightarrow> removeOne f p = dirtAbove (climb f1 p)) \<and>
         (lonely g q = Inr False \<longrightarrow> climb g q = Some (Inr (g, q))) \<and>
         (lonely g q = Inr True \<longrightarrow>
           climb g q =
             (case bindE (ram_read (data g) (parent q (rows g) XOR 1)) (\<lambda>s.
                     if s \<noteq> empty_hash then promote g (parent q (rows g) XOR 1)
                     else promote g (parent q (rows g))) of
                Inl e \<Rightarrow> Some (Inl e)
              | Inr g' \<Rightarrow> climb g' (parent q (rows g)))) \<and>
         (climb g q = Some (Inr (g', q')) \<longrightarrow>
           lonely g' q' = Inr False \<and> (\<exists>k. q' = ((\<lambda>x. parent x (rows g)) ^^ k) q)) \<and>
         (lonely f1 p = Inr True \<longleftrightarrow>
            inForest (parent p (rows f1) XOR 1) (numLeaves f1) (rows f1) \<and>
            inForest (p XOR 1) (numLeaves f1) (rows f1) \<and>
            (ram_read (data f1) (parent p (rows f1) XOR 1) = Inr empty_hash \<or>
             ram_read (data f1) (parent p (rows f1) XOR 1) \<noteq> Inl Panic \<and>
             ram_read (data f1) (p XOR 1) = Inr empty_hash))"
proof (intro conjI)
  show "removev5 f0 dels =
           (case deleteFromMap f0 dels of
              Inl e \<Rightarrow> Some (Inl e)
            | Inr g0 \<Rightarrow>
                map_option (map_sum id (\<lambda>(g1, dirt). g1\<lparr>numLeaves := numLeaves g1 - of_nat (length dels)\<rparr>))
                  (removeLoop g0 [] (condenseDeletions dels (rows g0))))"
    by (auto simp: removev5_def split: sum.splits option.splits)
  show "removeLoop f dirt (p # ps) =
           (case removeOne f p of
              None \<Rightarrow> None
            | Some (Inl e) \<Rightarrow> Some (Inl e)
            | Some (Inr (f', dirtpos)) \<Rightarrow>
                removeLoop f' (if dirt = [] \<or> last dirt \<noteq> dirtpos then dirt @ [dirtpos] else dirt) ps)"
    by (rule removeLoop.simps)
  show "lonely f1 p = Inr False \<longrightarrow>
          removeOne f p = dirtAbove (climb f1 (parent p (rows f1))) \<and>
          removeOne f p = removeOne_spec f p"
    using assms by (simp add: removeOne_def removeOne_spec_def)
  show "lonely f1 p = Inr True \<longrightarrow> removeOne f p = dirtAbove (climb f1 p)"
    using assms by (simp add: removeOne_def)
  show "lonely g q = Inr False \<longrightarrow> climb g q = Some (Inr (g, q))"
    by (simp add: climb_not_lonely)
  show "lonely g q = Inr True \<longrightarrow>
           climb g q =
             (case bindE (ram_read (data g) (parent q (rows g) XOR 1)) (\<lambda>s.
                     if s \<noteq> empty_hash then promote g (parent q (rows g) XOR 1)
                     else promote g (parent q (rows g))) of
                Inl e \<Rightarrow> Some (Inl e)
              | Inr g' \<Rightarrow> climb g' (parent q (rows g)))"
    using climb_lonely [of g q] by blast
  show "climb g q = Some (Inr (g', q')) \<longrightarrow>
           lonely g' q' = Inr False \<and> (\<exists>k. q' = ((\<lambda>x. parent x (rows g)) ^^ k) q)"
    using climb_result [of g q "Inr (g', q')"] by blast
  show "lonely f1 p = Inr True \<longleftrightarrow>
          inForest (parent p (rows f1) XOR 1) (numLeaves f1) (rows f1) \<and>
          inForest (p XOR 1) (numLeaves f1) (rows f1) \<and>
          (ram_read (data f1) (parent p (rows f1) XOR 1) = Inr empty_hash \<or>
           ram_read (data f1) (parent p (rows f1) XOR 1) \<noteq> Inl Panic \<and>
           ram_read (data f1) (p XOR 1) = Inr empty_hash)"
    by (rule lonely_True_iff)
qed

theorem C3_removev5_rises_while_lonely_witness:
  "promote exLonely (2 XOR 1) = Inr exLonely1 \<and>
   lonely exLonely1 2 = Inr True \<and>
   climb exLonely1 2 = climb exLonely2 5 \<and>
   lonely exLonely2 5 = Inr False \<and>
   removeOne exLonely 2 = Some (Inr (exLonely2, 6))"
proof -
  note t1 = C3_removev5_rises_while_lonely [OF exLonely_promote, where g = exLonely1 and q = 2]
  note t2 = C3_removev5_rises_while_lonely [OF exLonely_promote, where g = exLonely2 and q = 5]
  have a: "removeOne exLonely 2 = dirtAbove (climb exLonely1 2)"
    using t1 [THEN conjunct2, THEN conjunct2, THEN conjunct2, THEN conjunct1] exLonely1_lonely
    by (rule mp)
  have "climb exLonely1 2 =
          (case bindE (ram_read (data exLonely1) (parent 2 (rows exLonely1) XOR 1)) (\<lambda>s.
                  if s \<noteq> empty_hash then promote exLonely1 (parent 2 (rows exLonely1) XOR 1)
                  else promote exLonely1 (parent 2 (rows exLonely1))) of
             Inl e \<Rightarrow> Some (Inl e)
           | Inr g' \<Rightarrow> climb g' (parent 2 (rows exLonely1)))"
    using t1 [THEN conjunct2, THEN conjunct2, THEN conjunct2, THEN conjunct2, THEN conjunct2,
        THEN conjunct1] exLonely1_lonely
    by (rule mp)
  then have "climb exLonely1 2 = climb exLonely2 (parent 2 (rows exLonely1))"
    by (simp only: exLonely1_turn sum.case)
  then have b: "climb exLonely1 2 = climb exLonely2 5"
    by (simp only: exLonely_positions)
  have c: "climb exLonely2 5 = Some (Inr (exLonely2, 5))"
    using t2 [THEN conjunct2, THEN conjunct2, THEN conjunct2, THEN conjunct2, THEN conjunct1]
      exLonely2_not_lonely
    by (rule mp)
  have d: "removeOne exLonely 2 = Some (Inr (exLonely2, 6))"
    unfolding a b c by (simp add: dirtAbove_def exLonely_positions)
  show ?thesis
    using exLonely_promote exLonely1_lonely b exLonely2_not_lonely d by simp
qed

subsection \<open>Add in any forest\<close>

lemma parent_above:
  assumes "unat forestRows \<le> 62" and "unat p < 2 ^ Suc (unat forestRows) - 1"
  shows "unat p < unat (parent p forestRows)"
proof -
  define b :: nat where "b = 2 ^ unat forestRows"
  have "unat p < 2 ^ Suc (unat forestRows)" using assms(2) by simp
  with assms(1) have "unat (parent p forestRows) = unat p div 2 + b"
    unfolding b_def by (rule unat_parent)
  moreover have "unat p < 2 * b - 1" using assms(2) by (simp add: b_def)
  ultimately show ?thesis by arith
qed

lemma addRise_general:
  "unat pos < length m \<Longrightarrow>
   (\<forall>e. addRise parentHash m roots leaves forestRows h pos x = Inl e \<longrightarrow> e = Panic) \<and>
   (\<forall>m'. addRise parentHash m roots leaves forestRows h pos x = Inr m' \<longrightarrow>
      length m' = length m \<and>
      (unat forestRows \<le> 62 \<longrightarrow> length m \<le> 2 ^ Suc (unat forestRows) - 1 \<longrightarrow>
         (\<forall>p \<le> unat pos. m' ! p = m ! p)))"
proof (induction d \<equiv> "64 - h" arbitrary: h m pos x)
  case 0
  then have "\<not> h < 64" by simp
  then have "\<not> (drop_bit h leaves AND 1 = 1)"
    using drop_bit_and_1_less by blast
  then have "addRise parentHash m roots leaves forestRows h pos x = Inr m"
    by (subst addRise.simps) simp
  then show ?case by simp
next
  case (Suc d)
  show ?case
  proof (cases "drop_bit h leaves AND 1 = 1")
    case False
    then have "addRise parentHash m roots leaves forestRows h pos x = Inr m"
      by (subst addRise.simps) simp
    then show ?thesis by simp
  next
    case True
    define rootPos where "rootPos = int (length roots) - int (h + 1)"
    define pos' where "pos' = parent pos forestRows"
    show ?thesis
    proof (cases "rootPos < 0")
      case neg: True
      then have "addRise parentHash m roots leaves forestRows h pos x = Inl Panic"
        using True
        by (subst addRise.simps) (simp only: simp_thms if_True Let_def rootPos_def [symmetric])
      then show ?thesis by simp
    next
      case nonneg: False
      show ?thesis
      proof (cases "ram_read m (roots ! nat rootPos)")
        case (Inl e)
        then have "e = Panic" by (simp add: ram_read_def split: if_splits)
        with Inl have "addRise parentHash m roots leaves forestRows h pos x = Inl Panic"
          using True nonneg
          by (subst addRise.simps)
             (simp only: simp_thms if_True if_False Let_def rootPos_def [symmetric] bindE_def sum.case)
        then show ?thesis by simp
      next
        case rd: (Inr root)
        define x' where "x' = parentHash root x"
        show ?thesis
        proof (cases "ram_write m pos' x'")
          case (Inl e)
          then have "e = Panic" by (simp add: ram_write_def split: if_splits)
          with Inl have "addRise parentHash m roots leaves forestRows h pos x = Inl Panic"
            using True nonneg
            by (subst addRise.simps)
               (simp only: simp_thms if_True if_False Let_def rootPos_def [symmetric] rd bindE_def sum.case
                  pos'_def [symmetric] x'_def [symmetric])
          then show ?thesis by simp
        next
          case wr: (Inr m1)
          then have pl: "unat pos' < length m" and m1: "m1 = m[unat pos' := x']"
            by (simp_all add: ram_write_def split: if_splits)
          have step: "addRise parentHash m roots leaves forestRows h pos x =
                addRise parentHash m1 roots leaves forestRows (Suc h) pos' x'"
            using True nonneg
            by (subst addRise.simps)
               (simp only: simp_thms if_True if_False Let_def rootPos_def [symmetric] rd bindE_def sum.case
                  pos'_def [symmetric] x'_def [symmetric] wr Suc_eq_plus1)
          have d: "d = 64 - Suc h" using Suc.hyps(2) by simp
          have pl1: "unat pos' < length m1" using pl by (simp add: m1)
          note ih = Suc.hyps(1) [OF d pl1, of x']
          have frame: "\<forall>p \<le> unat pos. m' ! p = m ! p"
            if a: "addRise parentHash m1 roots leaves forestRows (Suc h) pos' x' = Inr m'"
              and r: "unat forestRows \<le> 62" and l: "length m \<le> 2 ^ Suc (unat forestRows) - 1"
            for m'
          proof (intro allI impI)
            fix p assume p: "p \<le> unat pos"
            have "unat pos < 2 ^ Suc (unat forestRows) - 1"
              using Suc.prems l by simp
            with r have up: "unat pos < unat pos'"
              unfolding pos'_def by (rule parent_above)
            have "length m1 \<le> 2 ^ Suc (unat forestRows) - 1" using l by (simp add: m1)
            with ih a r have "\<forall>p \<le> unat pos'. m' ! p = m1 ! p" by blast
            then have "m' ! p = m1 ! p" using p up by simp
            also have "\<dots> = m ! p" using p up by (simp add: m1)
            finally show "m' ! p = m ! p" .
          qed
          have len: "length m' = length m"
            if "addRise parentHash m1 roots leaves forestRows (Suc h) pos' x' = Inr m'" for m'
            using ih that by (simp add: m1)
          show ?thesis
            unfolding step using ih frame len by blast
        qed
      qed
    qed
  qed
qed

lemma addOne_general:
  "(\<forall>e. addOne parentHash f add = Inl e \<longrightarrow> e = Panic) \<and>
   (\<forall>f'. addOne parentHash f add = Inr f' \<longrightarrow>
      numLeaves f' = numLeaves f + 1 \<and> rows f' = rows f \<and>
      length (data f') = length (data f) \<and>
      positionMap f' = (positionMap f)(Mini (Hash add) \<mapsto> numLeaves f) \<and>
      unat (numLeaves f) < length (data f) \<and>
      (unat (rows f) \<le> 62 \<longrightarrow> length (data f) \<le> 2 ^ Suc (unat (rows f)) - 1 \<longrightarrow>
         data f' ! unat (numLeaves f) = Hash add \<and>
         (\<forall>p < unat (numLeaves f). data f' ! p = data f ! p)))"
proof (cases "unat (numLeaves f) < length (data f)")
  case False
  then have "addOne parentHash f add = Inl Panic"
    by (simp add: addOne_def Let_def ram_write_def bindE_def)
  then show ?thesis by simp
next
  case True
  define m0 where "m0 = (data f)[unat (numLeaves f) := Hash add]"
  define roots where "roots = getRootsForwards (numLeaves f) (rows f)"
  define res where "res = addRise parentHash m0 roots (numLeaves f) (rows f) 0 (numLeaves f) (Hash add)"
  have wr: "ram_write (data f) (numLeaves f) (Hash add) = Inr m0"
    using True by (simp add: ram_write_def m0_def)
  have one: "addOne parentHash f add =
      bindE res (\<lambda>m'. Inr (f\<lparr>positionMap := (positionMap f)(Mini (Hash add) \<mapsto> numLeaves f),
                              data := m', numLeaves := numLeaves f + 1\<rparr>))"
    by (simp add: addOne_def Let_def wr bindE_def res_def roots_def)
  have pl: "unat (numLeaves f) < length m0" using True by (simp add: m0_def)
  note g = addRise_general [OF pl, of parentHash roots "numLeaves f" "rows f" 0 "Hash add",
      folded res_def]
  show ?thesis
  proof (cases res)
    case (Inl e)
    with g have "e = Panic" by blast
    with Inl one show ?thesis by (simp add: bindE_def)
  next
    case (Inr m')
    with g have l: "length m' = length m0"
      and fr: "unat (rows f) \<le> 62 \<longrightarrow> length m0 \<le> 2 ^ Suc (unat (rows f)) - 1 \<longrightarrow>
                (\<forall>p \<le> unat (numLeaves f). m' ! p = m0 ! p)"
      by blast+
    have res1: "addOne parentHash f add =
        Inr (f\<lparr>positionMap := (positionMap f)(Mini (Hash add) \<mapsto> numLeaves f),
               data := m', numLeaves := numLeaves f + 1\<rparr>)"
      using one Inr by (simp add: bindE_def)
    have d: "m' ! unat (numLeaves f) = Hash add \<and> (\<forall>p < unat (numLeaves f). m' ! p = data f ! p)"
      if "unat (rows f) \<le> 62" "length (data f) \<le> 2 ^ Suc (unat (rows f)) - 1"
    proof -
      have a: "\<forall>p \<le> unat (numLeaves f). m' ! p = m0 ! p"
        using fr that by (simp add: m0_def)
      then have "m' ! unat (numLeaves f) = m0 ! unat (numLeaves f)" by simp
      moreover have "m0 ! unat (numLeaves f) = Hash add"
        using True by (simp add: m0_def)
      moreover have "m' ! p = data f ! p" if "p < unat (numLeaves f)" for p
      proof -
        have "m' ! p = m0 ! p" using a that by simp
        then show ?thesis using that by (simp add: m0_def)
      qed
      ultimately show ?thesis by simp
    qed
    show ?thesis
      unfolding res1 using l True d by (simp add: m0_def)
  qed
qed

lemma unat_Suc_slot:
  fixes n :: "64 word"
  assumes "unat n < 2 ^ Suc r - 1" and "r \<le> 62"
  shows "unat (n + 1) = Suc (unat n)"
proof -
  have "(2::nat) ^ Suc r \<le> 2 ^ 63"
    using assms(2) by (intro power_increasing) simp_all
  then have "unat n + unat (1 :: 64 word) < 2 ^ LENGTH(64)"
    using assms(1) by simp
  then have "unat (n + 1) = unat n + unat (1 :: 64 word)"
    by (simp only: unat_add_lem)
  then show ?thesis by simp
qed

lemma addv2_general:
  "unat (rows f) \<le> 62 \<Longrightarrow> length (data f) = 2 ^ Suc (unat (rows f)) - 1 \<Longrightarrow>
   (\<forall>e. addv2 parentHash f adds = Inl e \<longrightarrow> e = Panic) \<and>
   (\<forall>f'. addv2 parentHash f adds = Inr f' \<longrightarrow>
        numLeaves f' = numLeaves f + of_nat (length adds) \<and>
        unat (numLeaves f') = unat (numLeaves f) + length adds \<and>
        rows f' = rows f \<and>
        length (data f') = length (data f) \<and>
        (\<forall>p < unat (numLeaves f). data f' ! p = data f ! p) \<and>
        (\<forall>i < length adds. data f' ! (unat (numLeaves f) + i) = Hash (adds ! i)) \<and>
        (\<forall>k. k \<notin> (\<lambda>a. Mini (Hash a)) ` set adds \<longrightarrow> positionMap f' k = positionMap f k) \<and>
        (\<forall>i < length adds. \<exists>j. i \<le> j \<and> j < length adds \<and>
             Mini (Hash (adds ! j)) = Mini (Hash (adds ! i)) \<and>
             positionMap f' (Mini (Hash (adds ! i))) = Some (numLeaves f + of_nat j)))"
proof (induction adds arbitrary: f)
  case Nil
  then show ?case by simp
next
  case (Cons a as)
  let ?r = "unat (rows f)"
  let ?n = "unat (numLeaves f)"
  note g1 = addOne_general [of parentHash f a]
  show ?case
  proof (cases "addOne parentHash f a")
    case (Inl e)
    with g1 have "e = Panic" by blast
    with Inl have "addv2 parentHash f (a # as) = Inl Panic"
      by (simp add: bindE_def)
    then show ?thesis by simp
  next
    case s1: (Inr f1)
    have le: "length (data f) \<le> 2 ^ Suc ?r - 1" using Cons.prems(2) by simp
    from g1 s1 Cons.prems(1) le have
      n1: "numLeaves f1 = numLeaves f + 1"
      and r1: "rows f1 = rows f"
      and l1: "length (data f1) = length (data f)"
      and p1: "positionMap f1 = (positionMap f)(Mini (Hash a) \<mapsto> numLeaves f)"
      and nl: "?n < length (data f)"
      and d1: "data f1 ! ?n = Hash a"
      and o1: "\<forall>p < ?n. data f1 ! p = data f ! p"
      by blast+
    have u1: "unat (numLeaves f1) = Suc ?n"
      unfolding n1 using nl Cons.prems by (intro unat_Suc_slot [of _ ?r]) simp_all
    have step: "addv2 parentHash f (a # as) = addv2 parentHash f1 as"
      by (simp add: s1 bindE_def)
    have pr: "unat (rows f1) \<le> 62" "length (data f1) = 2 ^ Suc (unat (rows f1)) - 1"
      using Cons.prems by (simp_all add: r1 l1)
    note ih = Cons.IH [OF pr]
    have err: "\<forall>e. addv2 parentHash f (a # as) = Inl e \<longrightarrow> e = Panic"
      unfolding step using ih by blast
    have ok: "numLeaves f' = numLeaves f + of_nat (length (a # as)) \<and>
        unat (numLeaves f') = ?n + length (a # as) \<and>
        rows f' = rows f \<and>
        length (data f') = length (data f) \<and>
        (\<forall>p < ?n. data f' ! p = data f ! p) \<and>
        (\<forall>i < length (a # as). data f' ! (?n + i) = Hash ((a # as) ! i)) \<and>
        (\<forall>k. k \<notin> (\<lambda>a. Mini (Hash a)) ` set (a # as) \<longrightarrow> positionMap f' k = positionMap f k) \<and>
        (\<forall>i < length (a # as). \<exists>j. i \<le> j \<and> j < length (a # as) \<and>
             Mini (Hash ((a # as) ! j)) = Mini (Hash ((a # as) ! i)) \<and>
             positionMap f' (Mini (Hash ((a # as) ! i))) = Some (numLeaves f + of_nat j))"
      if s2: "addv2 parentHash f1 as = Inr f'" for f'
    proof -
      from ih s2 have
        n2: "numLeaves f' = numLeaves f1 + of_nat (length as)"
        and u2: "unat (numLeaves f') = unat (numLeaves f1) + length as"
        and r2: "rows f' = rows f1"
        and l2: "length (data f') = length (data f1)"
        and o2: "\<forall>p < unat (numLeaves f1). data f' ! p = data f1 ! p"
        and d2: "\<forall>i < length as. data f' ! (unat (numLeaves f1) + i) = Hash (as ! i)"
        and k2: "\<forall>k. k \<notin> (\<lambda>a. Mini (Hash a)) ` set as \<longrightarrow> positionMap f' k = positionMap f1 k"
        and j2: "\<forall>i < length as. \<exists>j. i \<le> j \<and> j < length as \<and>
             Mini (Hash (as ! j)) = Mini (Hash (as ! i)) \<and>
             positionMap f' (Mini (Hash (as ! i))) = Some (numLeaves f1 + of_nat j)"
        by blast+
      have A: "numLeaves f' = numLeaves f + of_nat (length (a # as))"
        by (simp add: n2 n1)
      have B: "unat (numLeaves f') = ?n + length (a # as)"
        by (simp add: u2 u1)
      have C: "\<forall>p < ?n. data f' ! p = data f ! p"
      proof (intro allI impI)
        fix p assume p: "p < ?n"
        then have "data f' ! p = data f1 ! p" using o2 u1 by simp
        also have "\<dots> = data f ! p" using o1 p by simp
        finally show "data f' ! p = data f ! p" .
      qed
      have D: "\<forall>i < length (a # as). data f' ! (?n + i) = Hash ((a # as) ! i)"
      proof (intro allI impI)
        fix i assume i: "i < length (a # as)"
        show "data f' ! (?n + i) = Hash ((a # as) ! i)"
        proof (cases i)
          case 0
          have "data f' ! ?n = data f1 ! ?n" using o2 u1 by simp
          then show ?thesis using 0 d1 by simp
        next
          case (Suc i')
          then have "i' < length as" using i by simp
          then have "data f' ! (unat (numLeaves f1) + i') = Hash (as ! i')" using d2 by blast
          then show ?thesis using Suc u1 by simp
        qed
      qed
      have E: "\<forall>k. k \<notin> (\<lambda>a. Mini (Hash a)) ` set (a # as) \<longrightarrow> positionMap f' k = positionMap f k"
        using k2 p1 by simp
      have shift: "numLeaves f1 + of_nat j = numLeaves f + of_nat (Suc j)" for j
        by (simp add: n1)
      have later: "\<exists>j. Suc i' \<le> j \<and> j < length (a # as) \<and>
                 Mini (Hash ((a # as) ! j)) = Mini (Hash (as ! i')) \<and>
                 positionMap f' (Mini (Hash (as ! i'))) = Some (numLeaves f + of_nat j)"
        if lt: "i' < length as" for i'
      proof -
        from j2 lt have "\<exists>j. i' \<le> j \<and> j < length as \<and> Mini (Hash (as ! j)) = Mini (Hash (as ! i')) \<and>
          positionMap f' (Mini (Hash (as ! i'))) = Some (numLeaves f1 + of_nat j)"
          by simp
        then obtain j where "i' \<le> j" "j < length as" "Mini (Hash (as ! j)) = Mini (Hash (as ! i'))"
          "positionMap f' (Mini (Hash (as ! i'))) = Some (numLeaves f1 + of_nat j)"
          by (elim exE conjE)
        then show ?thesis
          using shift [of j] by (intro exI [of _ "Suc j"]) simp
      qed
      have F: "\<forall>i < length (a # as). \<exists>j. i \<le> j \<and> j < length (a # as) \<and>
                 Mini (Hash ((a # as) ! j)) = Mini (Hash ((a # as) ! i)) \<and>
                 positionMap f' (Mini (Hash ((a # as) ! i))) = Some (numLeaves f + of_nat j)"
      proof (intro allI impI)
        fix i assume i: "i < length (a # as)"
        show "\<exists>j. i \<le> j \<and> j < length (a # as) \<and>
                 Mini (Hash ((a # as) ! j)) = Mini (Hash ((a # as) ! i)) \<and>
                 positionMap f' (Mini (Hash ((a # as) ! i))) = Some (numLeaves f + of_nat j)"
        proof (cases i)
          case 0
          show ?thesis
          proof (cases "Mini (Hash a) \<in> (\<lambda>a. Mini (Hash a)) ` set as")
            case True
            then obtain i' where i': "i' < length as" "Mini (Hash (as ! i')) = Mini (Hash a)"
              by (auto simp: in_set_conv_nth)
            from later [OF i'(1)] obtain j where "Suc i' \<le> j" "j < length (a # as)"
              "Mini (Hash ((a # as) ! j)) = Mini (Hash (as ! i'))"
              "positionMap f' (Mini (Hash (as ! i'))) = Some (numLeaves f + of_nat j)"
              by blast
            then show ?thesis
              using 0 i'(2) by (intro exI [of _ j]) simp
          next
            case False
            then have "positionMap f' (Mini (Hash a)) = positionMap f1 (Mini (Hash a))"
              using k2 by blast
            then show ?thesis
              using 0 p1 by (intro exI [of _ 0]) simp
          qed
        next
          case (Suc i')
          then have "i' < length as" using i by simp
          from later [OF this] obtain j where "Suc i' \<le> j" "j < length (a # as)"
              "Mini (Hash ((a # as) ! j)) = Mini (Hash (as ! i'))"
              "positionMap f' (Mini (Hash (as ! i'))) = Some (numLeaves f + of_nat j)"
            by blast
          then show ?thesis
            using Suc by (intro exI [of _ j]) simp
        qed
      qed
      have G: "rows f' = rows f" "length (data f') = length (data f)"
        by (simp_all add: r2 r1 l2 l1)
      from A B G C D E F show ?thesis by (intro conjI)
    qed
    show ?thesis
      unfolding step
      apply (rule conjI)
       apply (rule err [unfolded step])
      apply (intro allI impI)
      apply (erule ok)
      done
  qed
qed

text \<open>
  A list that does not fit in the bottom row need not panic: the forest of four leaves
  that \<^verbatim>\<open>Modify\<close> builds is full, and \<^verbatim>\<open>Add\<close> of a fifth leaf writes it at position 4, over
  the hash of the first two leaves.
\<close>

lemma Add_beyond_capacity_may_return:
  "map_option (map_sum id (\<lambda>(u, f). (data f, map_sum id (\<lambda>f'. (numLeaves f', rows f', data f'))
       (Add tH f [\<lparr>Hash = 5, Remember = False\<rparr>]))))
     (Modify tH NewForest [\<lparr>Hash = 1, Remember = False\<rparr>, \<lparr>Hash = 2, Remember = False\<rparr>,
        \<lparr>Hash = 3, Remember = False\<rparr>, \<lparr>Hash = 4, Remember = False\<rparr>] [])
   = Some (Inr ([1, 2, 3, 4, 12, 34, 154], Inr (5, 2, [1, 2, 3, 4, 5, 34, 154])))"
  by code_simp

text \<open>
  C9, amended. In a forest of at most 62 rows whose array has the \<open>2 ^ (rows + 1) - 1\<close>
  slots of its rows, for every list of leaves, whatever the hashes are, the empty hash
  included: \<^verbatim>\<open>Add\<close> validates nothing, it either returns or panics on an index out of range
  of the array; it returns whenever the list fits in the bottom row
  (\<open>numLeaves + length adds \<le> 2 ^ rows\<close>); and whenever it returns, \<open>numLeaves\<close> has grown
  by the length of the list, the hash of the \<open>i\<close>-th leaf is at position \<open>numLeaves + i\<close>,
  and its \<^verbatim>\<open>MiniHash\<close> is mapped to the position of the last leaf of the list with that
  \<^verbatim>\<open>MiniHash\<close> (its own position when no later leaf shares it).
\<close>

theorem C9_Add_without_validation:
  assumes "unat (rows f) \<le> 62"
    and "length (data f) = 2 ^ Suc (unat (rows f)) - 1"
  shows "(unat (numLeaves f) + length adds \<le> 2 ^ unat (rows f) \<longrightarrow>
            (\<exists>g. Add parentHash f adds = Inr g)) \<and>
         (Add parentHash f adds = Inl e \<longrightarrow> e = Panic) \<and>
         (Add parentHash f adds = Inr f' \<longrightarrow>
            numLeaves f' = numLeaves f + of_nat (length adds) \<and>
            (\<forall>i < length adds. data f' ! (unat (numLeaves f) + i) = Hash (adds ! i)) \<and>
            (\<forall>i < length adds. \<exists>j. i \<le> j \<and> j < length adds \<and>
                Mini (Hash (adds ! j)) = Mini (Hash (adds ! i)) \<and>
                positionMap f' (Mini (Hash (adds ! i))) = Some (numLeaves f + of_nat j)))"
proof (intro conjI impI)
  note g = addv2_general [OF assms, of parentHash adds]
  show "\<exists>g. Add parentHash f adds = Inr g"
    if "unat (numLeaves f) + length adds \<le> 2 ^ unat (rows f)"
    using addv2_ok [OF assms that, of parentHash] unfolding Add_def by blast
  show "e = Panic" if "Add parentHash f adds = Inl e"
    using g that unfolding Add_def by blast
  assume "Add parentHash f adds = Inr f'"
  then have s: "addv2 parentHash f adds = Inr f'" by (simp add: Add_def)
  from g s show "numLeaves f' = numLeaves f + of_nat (length adds)" by blast
  from g s show "\<forall>i < length adds. data f' ! (unat (numLeaves f) + i) = Hash (adds ! i)" by blast
  from g s show "\<forall>i < length adds. \<exists>j. i \<le> j \<and> j < length adds \<and>
                Mini (Hash (adds ! j)) = Mini (Hash (adds ! i)) \<and>
                positionMap f' (Mini (Hash (adds ! i))) = Some (numLeaves f + of_nat j)" by blast
qed

theorem C9_Add_without_validation_witness:
  "unat (rows exThree) \<le> 62 \<and>
   length (data exThree) = 2 ^ Suc (unat (rows exThree)) - 1 \<and>
   unat (numLeaves exThree) + length [\<lparr>Hash = empty_hash, Remember = False\<rparr>]
     \<le> 2 ^ unat (rows exThree) \<and>
   (\<exists>g. Add tH exThree [\<lparr>Hash = empty_hash, Remember = False\<rparr>] = Inr g \<and>
         numLeaves g = 4 \<and> data g ! 3 = empty_hash \<and>
         positionMap g (Mini empty_hash) = Some 3)"
proof -
  have a: "unat (rows exThree) \<le> 62"
    and b: "length (data exThree) = 2 ^ Suc (unat (rows exThree)) - 1"
    and c: "unat (numLeaves exThree) + length [\<lparr>Hash = empty_hash, Remember = False\<rparr>]
              \<le> 2 ^ unat (rows exThree)"
    by (simp_all add: exThree_def)
  note t = C9_Add_without_validation [OF a b, of "[\<lparr>Hash = empty_hash, Remember = False\<rparr>]" tH]
  from t [THEN conjunct1] c obtain g where
    g: "Add tH exThree [\<lparr>Hash = empty_hash, Remember = False\<rparr>] = Inr g" by blast
  from t [where f' = g, THEN conjunct2, THEN conjunct2] g
  have "numLeaves g = 4 \<and> data g ! 3 = empty_hash \<and> positionMap g (Mini empty_hash) = Some 3"
    by (simp add: exThree_def)
  with a b c g show ?thesis by blast
qed

lemma misc_read:
  fixes n :: "64 word" and r :: "8 word" and rest :: "byte list"
  defines "c \<equiv> be_encode 8 (unat n) @ be_encode 1 (unat r) @ rest"
  shows "binaryRead 8 (openFile c False) = Some (unat n, (openFile c False)\<lparr>fpos := 8\<rparr>)"
    and "binaryRead 1 ((openFile c False)\<lparr>fpos := 8\<rparr>) = Some (unat r, (openFile c False)\<lparr>fpos := 9\<rparr>)"
proof -
  have "unat n < 2 ^ LENGTH(64)" by (rule unsigned_less)
  moreover have "(256::nat) ^ 8 = 2 ^ 64" by simp
  ultimately have "unat n mod 256 ^ 8 = unat n" by simp
  then have n: "unat n mod 18446744073709551616 = unat n" by simp
  have "unat r < 2 ^ LENGTH(8)" by (rule unsigned_less)
  then have r: "unat r mod 256 = unat r" by simp
  have t8: "take 8 c = be_encode 8 (unat n)"
    by (simp add: c_def length_be_encode)
  have e1: "be_encode (Suc 0) (unat r) = [r]"
    by (simp add: r)
  have t1: "take 1 (drop 8 c) = [r]"
    by (simp add: c_def length_be_encode e1 del: be_encode.simps)
  have l: "9 \<le> length c"
    by (simp add: c_def length_be_encode)
  show "binaryRead 8 (openFile c False) = Some (unat n, (openFile c False)\<lparr>fpos := 8\<rparr>)"
    using l by (simp add: binaryRead_def openFile_def t8 be_decode_encode n)
  show "binaryRead 1 ((openFile c False)\<lparr>fpos := 8\<rparr>) = Some (unat r, (openFile c False)\<lparr>fpos := 9\<rparr>)"
    using l t1 by (simp add: binaryRead_def openFile_def be_decode_def)
qed

lemma forest_read:
  "readLoop (openFile (ramBytes m @ rest) False) (32 * length m) [] = Inr (ramBytes m)"
proof -
  have "readLoop (openFile (ramBytes m @ rest) False) (32 * length m) []
      = Inr (take (32 * length m) (contents (openFile (ramBytes m @ rest) False)))"
    by (rule readLoop_reads) (simp_all add: openFile_def length_ramBytes)
  then show ?thesis
    by (simp add: openFile_def length_ramBytes)
qed

lemma RestoreForest_ok:
  fixes n :: "64 word" and r :: "8 word"
  assumes "unat r \<le> 62" and "length m = 2 ^ Suc (unat r) - 1" and "unat n \<le> length m"
  shows "\<exists>pm. RestoreForest (openFile (be_encode 8 (unat n) @ be_encode 1 (unat r) @ rest) False)
                  (openFile (ramBytes m @ rest') False)
               = Inr \<lparr>numLeaves = n, rows = r, data = m, positionMap = pm\<rparr> \<and>
     (\<forall>k p. pm k = Some p \<longleftrightarrow>
        (\<exists>i<unat n. p = of_nat i \<and> Mini (m ! i) = k \<and>
           (\<forall>j. i < j \<and> j < unat n \<longrightarrow> Mini (m ! j) \<noteq> k)))"
proof -
  have "unat n < 2 ^ LENGTH(64)" by (rule unsigned_less)
  then have "unat n < 2 ^ 64" by simp
  from rebuildMap_scan [OF assms(3) this] obtain pm where
    pm: "rebuildMap m [0..<unat n] Map.empty = Inr pm"
    and c: "\<forall>k p. pm k = Some p \<longleftrightarrow>
        (\<exists>i<unat n. p = of_nat i \<and> Mini (m ! i) = k \<and>
           (\<forall>j. i < j \<and> j < unat n \<longrightarrow> Mini (m ! j) \<noteq> k))"
    by (elim exE conjE)
  have on: "(of_nat (unat n) :: 64 word) = n" by simp
  have or: "(of_nat (unat r) :: 8 word) = r" by simp
  have rl: "readLoop (openFile (ramBytes m @ rest') False)
              (32 * length (replicate (2 ^ Suc (unat r) - 1) (0 :: Hash))) [] = Inr (ramBytes m)"
    using forest_read [of m rest'] assms(2) by simp
  have "RestoreForest (openFile (be_encode 8 (unat n) @ be_encode 1 (unat r) @ rest) False)
                  (openFile (ramBytes m @ rest') False)
               = Inr \<lparr>numLeaves = n, rows = r, data = m, positionMap = pm\<rparr>"
    unfolding RestoreForest_def
    by (simp only: misc_read option.case prod.case Let_def resize_new [OF assms(1)] rl
        bindE_def sum.case bytesRam_ramBytes pm on or)
  with c show ?thesis by blast
qed

lemma persistAndRestore_ok:
  assumes "unat (rows f) \<le> 62" and "length (data f) = 2 ^ Suc (unat (rows f)) - 1"
    and "unat (numLeaves f) \<le> length (data f)"
  shows "\<exists>pm. persistAndRestore f (openFile oldm False) (openFile oldd False)
               = Inr \<lparr>numLeaves = numLeaves f, rows = rows f, data = data f, positionMap = pm\<rparr> \<and>
     (\<forall>k p. pm k = Some p \<longleftrightarrow>
        (\<exists>i<unat (numLeaves f). p = of_nat i \<and> Mini (data f ! i) = k \<and>
           (\<forall>j. i < j \<and> j < unat (numLeaves f) \<longrightarrow> Mini (data f ! j) \<noteq> k)))"
proof -
  from misc_written [of f oldm] obtain mf where
    m: "WriteMiscData f (openFile oldm False) = Inr mf"
       "contents mf = be_encode 8 (unat (numLeaves f)) @ be_encode 1 (unat (rows f)) @ drop 9 oldm"
    by (elim exE conjE)
  from forest_written [of f oldd] obtain df where
    d: "WriteForestToDisk f (openFile oldd False) True = Inr df"
       "contents df = ramBytes (data f) @ drop (32 * length (data f)) oldd"
    by (elim exE conjE)
  have "persistAndRestore f (openFile oldm False) (openFile oldd False)
      = RestoreForest (openFile (be_encode 8 (unat (numLeaves f)) @ be_encode 1 (unat (rows f)) @ drop 9 oldm) False)
          (openFile (ramBytes (data f) @ drop (32 * length (data f)) oldd) False)"
    by (simp add: persistAndRestore_def m d bindE_def)
  then show ?thesis
    using RestoreForest_ok [OF assms, of "drop 9 oldm" "drop (32 * length (data f)) oldd"]
    by simp
qed

end
